theory Spec2Isabelle
  imports Main "HOL-Library.Word"
begin

section \<open>Text\<close>

text \<open>
  A JavaScript string is a sequence of UTF-16 code units, and \<open>.length\<close>, \<open>slice\<close>,
  the regular expressions and \<open>trim\<close> all work on code units. A text is therefore a
  list of 16-bit words; \<open>units\<close> writes an ASCII literal of the source.
\<close>

type_synonym str = "16 word list"

definition units :: "string \<Rightarrow> str" where
  "units s = map of_char s"

text \<open>
  The characters matched by \<open>\s\<close> in a regular expression and removed by
  \<open>String.prototype.trim\<close>: the WhiteSpace and LineTerminator code points of ECMAScript.
\<close>

definition is_space :: "16 word \<Rightarrow> bool" where
  "is_space c \<longleftrightarrow>
     c = 0x09 \<or> c = 0x0A \<or> c = 0x0B \<or> c = 0x0C \<or> c = 0x0D \<or> c = 0x20 \<or> c = 0xA0
     \<or> c = 0x1680 \<or> (0x2000 \<le> c \<and> c \<le> 0x200A) \<or> c = 0x2028 \<or> c = 0x2029
     \<or> c = 0x202F \<or> c = 0x205F \<or> c = 0x3000 \<or> c = 0xFEFF"

text \<open>
  Case-insensitive matching (flag \<open>i\<close>, no flag \<open>u\<close>) compares the upper-case forms
  of pattern and input character. The patterns of this program hold only the letters
  \<open>j s o n\<close> and the backtick, and the only code units whose canonical form is one of
  these are the ASCII letters themselves, so upper-casing the range \<open>a..z\<close> is exact.
\<close>

definition canonicalize :: "16 word \<Rightarrow> 16 word" where
  "canonicalize c = (if 0x61 \<le> c \<and> c \<le> 0x7A then c - 0x20 else c)"

fun strip_prefix_ci :: "str \<Rightarrow> str \<Rightarrow> str option" where
  "strip_prefix_ci [] s = Some s"
| "strip_prefix_ci (p # ps) [] = None"
| "strip_prefix_ci (p # ps) (c # cs) =
     (if canonicalize c = canonicalize p then strip_prefix_ci ps cs else None)"

fun strip_prefix :: "str \<Rightarrow> str \<Rightarrow> str option" where
  "strip_prefix [] s = Some s"
| "strip_prefix (p # ps) [] = None"
| "strip_prefix (p # ps) (c # cs) = (if c = p then strip_prefix ps cs else None)"

definition fence :: str where
  "fence = units ''```''"

definition trim :: "str \<Rightarrow> str" where
  "trim s = rev (dropWhile is_space (rev (dropWhile is_space s)))"

subsection \<open>Fence stripping of \<open>processOffer\<close>\<close>

text \<open>
  \<open>text.replace(/^```(?:json)?\s*/i, '')\<close>: the pattern is anchored at the start of the
  text. After the three backticks the optional group takes \<open>json\<close> when it is there
  (greedy), then \<open>\s*\<close> takes the longest run of white space; nothing follows in the
  pattern, so there is no backtracking. Without a match the text is unchanged.
\<close>

definition replace_open :: "str \<Rightarrow> str" where
  "replace_open s =
     (case strip_prefix_ci fence s of
        None \<Rightarrow> s
      | Some r \<Rightarrow>
          dropWhile is_space
            (case strip_prefix_ci (units ''json'') r of Some r' \<Rightarrow> r' | None \<Rightarrow> r))"

text \<open>
  \<open>.replace(/\s*```\s*$/, '')\<close>: without flag \<open>m\<close> the anchor is the end of the text,
  and the first match from the left is replaced. At a position the pattern matches when
  the longest run of white space there is followed by three backticks and then by white
  space only (a shorter run cannot be followed by a backtick). The match extends to the
  end of the text, so replacing it cuts the text at the leftmost matching position.
\<close>

definition closes :: "str \<Rightarrow> bool" where
  "closes r =
     (case strip_prefix fence (dropWhile is_space r) of
        Some w \<Rightarrow> list_all is_space w
      | None \<Rightarrow> False)"

fun replace_close :: "str \<Rightarrow> str" where
  "replace_close [] = []"
| "replace_close (c # cs) = (if closes (c # cs) then [] else c # replace_close cs)"

definition cleaned :: "str \<Rightarrow> str" where
  "cleaned t = trim (replace_close (replace_open t))"


section \<open>Parsed documents\<close>

text \<open>
  The value \<open>JSON.parse\<close> returns, and the request body the framework hands to the
  route. An object is an association list read with \<open>map_of\<close>; a key that is not bound
  reads as \<open>undefined\<close> (\<open>None\<close>). Numbers are never inspected by the schemas.
\<close>

datatype json =
    JNull
  | JBool bool
  | JNumber int
  | JString str
  | JArray "json list"
  | JObject "(str \<times> json) list"

section \<open>Schemas (\<open>schemas/offer.ts\<close>)\<close>

text \<open>
  The zod combinators the schemas use. \<open>parse\<close> either returns the validated value or
  throws a \<open>ZodError\<close>; here \<open>None\<close> is the throw. \<open>z.object\<close> in its default mode
  reads the keys of its shape and drops every other key of the input without complaint.
\<close>

definition z_string :: "json option \<Rightarrow> str option" where
  "z_string v = (case v of Some (JString s) \<Rightarrow> Some s | _ \<Rightarrow> None)"

definition z_string_min_max :: "nat \<Rightarrow> nat \<Rightarrow> json option \<Rightarrow> str option" where
  "z_string_min_max lo hi v =
     (case z_string v of
        Some s \<Rightarrow> if lo \<le> length s \<and> length s \<le> hi then Some s else None
      | None \<Rightarrow> None)"

definition z_string_max :: "nat \<Rightarrow> json option \<Rightarrow> str option" where
  "z_string_max hi v =
     (case z_string v of
        Some s \<Rightarrow> if length s \<le> hi then Some s else None
      | None \<Rightarrow> None)"

definition z_optional :: "(json option \<Rightarrow> 'a option) \<Rightarrow> json option \<Rightarrow> 'a option option" where
  "z_optional inner v = (case v of None \<Rightarrow> Some None | Some _ \<Rightarrow> map_option Some (inner v))"

definition z_nullable :: "(json option \<Rightarrow> 'a option) \<Rightarrow> json option \<Rightarrow> 'a option option" where
  "z_nullable inner v = (case v of Some JNull \<Rightarrow> Some None | _ \<Rightarrow> map_option Some (inner v))"

definition z_enum :: "str list \<Rightarrow> json option \<Rightarrow> str option" where
  "z_enum tags v =
     (case z_string v of
        Some s \<Rightarrow> if s \<in> set tags then Some s else None
      | None \<Rightarrow> None)"

definition OFFER_TYPES :: "str list" where
  "OFFER_TYPES =
     [units ''discount'', units ''bundle'', units ''limited-time'', units ''loyalty'',
      units ''free-trial'', units ''referral'', units ''seasonal'', units ''clearance'']"

record offer_input =
  offerType :: str
  offerDescription :: str
  existingCopy :: "str option"

definition offerInputSchema :: "json \<Rightarrow> offer_input option" where
  "offerInputSchema j =
     (case j of
        JObject kvs \<Rightarrow>
          (case (z_enum OFFER_TYPES (map_of kvs (units ''offerType'')),
                 z_string_min_max 1 2000 (map_of kvs (units ''offerDescription'')),
                 z_optional (z_string_max 5000) (map_of kvs (units ''existingCopy''))) of
             (Some t, Some d, Some e) \<Rightarrow>
               Some \<lparr>offerType = t, offerDescription = d, existingCopy = e\<rparr>
           | _ \<Rightarrow> None)
      | _ \<Rightarrow> None)"

definition offerRequestBodySchema :: "json \<Rightarrow> offer_input list option" where
  "offerRequestBodySchema j =
     (case j of
        JObject kvs \<Rightarrow>
          (case map_of kvs (units ''offers'') of
             Some (JArray xs) \<Rightarrow>
               if 1 \<le> length xs \<and> length xs \<le> 50
               then those (map offerInputSchema xs) else None
           | _ \<Rightarrow> None)
      | _ \<Rightarrow> None)"

record offer_copy =
  headline :: str
  subheadline :: "str option"
  body :: str
  callToAction :: str
  legalDisclaimer :: "str option"

definition offerCopySchema :: "json \<Rightarrow> offer_copy option" where
  "offerCopySchema j =
     (case j of
        JObject kvs \<Rightarrow>
          (case (z_string (map_of kvs (units ''headline'')),
                 z_nullable z_string (map_of kvs (units ''subheadline'')),
                 z_string (map_of kvs (units ''body'')),
                 z_string (map_of kvs (units ''callToAction'')),
                 z_nullable z_string (map_of kvs (units ''legalDisclaimer''))) of
             (Some h, Some s, Some b, Some c, Some l) \<Rightarrow>
               Some \<lparr>headline = h, subheadline = s, body = b, callToAction = c,
                     legalDisclaimer = l\<rparr>
           | _ \<Rightarrow> None)
      | _ \<Rightarrow> None)"

text \<open>
  \<open>OfferResult\<close>. Its first three fields are \<open>offerType\<close>, \<open>offerDescription\<close> and
  \<open>mode\<close> in the source; a record field is a constant of the theory, so the names the
  input record has taken carry a prefix here.
\<close>

datatype mode = Generated | Modified

record offer_result =
  res_offerType :: str
  res_offerDescription :: str
  res_mode :: mode
  res_copy :: offer_copy
  processingTimeMs :: int

section \<open>\<open>processOffer\<close>\<close>

text \<open>
  What a task can throw, as the route's handler tells the cases apart: a
  \<open>ChatSDKError\<close> with its code, another \<open>Error\<close> with its message, the \<open>ZodError\<close> of
  a schema (an \<open>Error\<close> whose message lists the issues), the \<open>TimeoutError\<close> an
  \<open>AbortSignal.timeout\<close> aborts a call with (an \<open>Error\<close> too), or a value that is no
  \<open>Error\<close>.
\<close>

datatype thrown =
    ChatSDKError str
  | Error str
  | ZodError
  | TimeoutError
  | NonError

text \<open>
  The collaborators of \<open>processOffer\<close> that are not part of the repository's logic: the
  prompt builder, the provider lookup with the \<open>generateText\<close> call, \<open>JSON.parse\<close>
  (\<open>None\<close> when it throws), and the two readings of the clock as their difference.
  \<open>generateText\<close> takes the system prompt, the user prompt and the number of
  milliseconds of its \<open>abortSignal\<close>, \<open>AbortSignal.timeout(ms)\<close>, and gives the text or
  what the call throws. That the timer fires after \<open>ms\<close> milliseconds and that the call
  then stops with \<open>TimeoutError\<close> is the service's part, not the repository's.
\<close>

record services =
  buildOfferSystemPrompt :: "str \<Rightarrow> str"
  generateText :: "str \<Rightarrow> str \<Rightarrow> nat \<Rightarrow> thrown + str"
  JSON_parse :: "str \<Rightarrow> json option"
  elapsed :: "offer_input \<Rightarrow> int"

definition PER_OFFER_TIMEOUT_MS :: nat where
  "PER_OFFER_TIMEOUT_MS = 5000"

definition BATCH_CONCURRENCY :: int where
  "BATCH_CONCURRENCY = 10"

text \<open>\<open>[a, b, ...].join('\n')\<close>\<close>

fun join_lines :: "str list \<Rightarrow> str" where
  "join_lines [] = []"
| "join_lines [l] = l"
| "join_lines (l # ls) = l @ [0x0A] @ join_lines ls"

text \<open>
  The test \<open>offer.existingCopy ? ... : ...\<close> is JavaScript truthiness: \<open>undefined\<close>
  and the empty string are both false.
\<close>

definition truthy :: "str option \<Rightarrow> bool" where
  "truthy v = (case v of None \<Rightarrow> False | Some s \<Rightarrow> s \<noteq> [])"

definition userPrompt :: "offer_input \<Rightarrow> str" where
  "userPrompt offer =
     (if truthy (existingCopy offer) then
        join_lines
          [units ''OFFER DESCRIPTION:'', offerDescription offer, [],
           units ''EXISTING COPY TO MODIFY:'', the (existingCopy offer), [],
           units ''Please revise the existing copy to better follow the guidelines while preserving the original intent.'']
      else
        join_lines
          [units ''OFFER DESCRIPTION:'', offerDescription offer, [],
           units ''Please generate new customer-facing copy for this offer.''])"

text \<open>The message of the \<open>Error\<close> thrown when \<open>JSON.parse\<close> throws (\<open>0x2026\<close> is the ellipsis).\<close>

definition invalid_json_message :: "offer_input \<Rightarrow> str \<Rightarrow> str" where
  "invalid_json_message offer txt =
     units ''Model returned invalid JSON for offer \"'' @ take 60 (offerDescription offer)
       @ [0x2026] @ units ''\": '' @ take 200 txt"

text \<open>
  Lines 69 to 84 of \<open>processOffer\<close>: strip the fences, parse, validate. The two
  failures are different exceptions.
\<close>

definition decode :: "services \<Rightarrow> offer_input \<Rightarrow> str \<Rightarrow> thrown + offer_copy" where
  "decode sv offer txt =
     (case JSON_parse sv (cleaned txt) of
        None \<Rightarrow> Inl (Error (invalid_json_message offer txt))
      | Some parsed \<Rightarrow>
          (case offerCopySchema parsed of
             None \<Rightarrow> Inl ZodError
           | Some copy \<Rightarrow> Inr copy))"

definition processOffer :: "services \<Rightarrow> offer_input \<Rightarrow> thrown + offer_result" where
  "processOffer sv offer =
     (case generateText sv (buildOfferSystemPrompt sv (offerType offer)) (userPrompt offer)
             PER_OFFER_TIMEOUT_MS of
        Inl e \<Rightarrow> Inl e
      | Inr txt \<Rightarrow>
          (case decode sv offer txt of
             Inl e \<Rightarrow> Inl e
           | Inr copy \<Rightarrow>
               Inr \<lparr>res_offerType = offerType offer,
                    res_offerDescription = offerDescription offer,
                    res_mode = (if truthy (existingCopy offer) then Modified else Generated),
                    res_copy = copy,
                    processingTimeMs = elapsed sv offer\<rparr>))"


section \<open>\<open>mapWithConcurrency\<close>\<close>

text \<open>
  JavaScript runs one piece of code at a time: a worker runs from one \<open>await\<close> to the
  next without interruption, and the only freedom of a run is the order in which the
  awaited promises settle. A worker is suspended at \<open>await fn(items[i], i)\<close>, or has left
  its loop, or has thrown what the awaited promise was rejected with. The outcome of the
  call \<open>fn(items[i], i)\<close> is a value of \<open>'e + 'r\<close>: \<open>Inr\<close> what its promise is fulfilled
  with, \<open>Inl\<close> what it is rejected with (a call that throws at once makes its worker
  throw as a rejection does). Every call settles; a promise that stays pending for ever
  is not modelled.
\<close>

datatype 'e worker = Awaiting nat | Exited | Threw 'e

text \<open>
  The variables the workers share: \<open>nextIndex\<close> and the \<open>results\<close> array, whose slots
  start as holes (\<open>new Array(items.length)\<close>); the promises of the workers launched so
  far; what \<open>Promise.all\<close> has been rejected with, which is the first rejection among the
  workers; and, for the properties below, the indices \<open>fn\<close> has been called on, in order.
\<close>

record ('e, 'r) pool =
  nextIndex :: nat
  results :: "'r option list"
  workers :: "'e worker list"
  rejection :: "'e option"
  calls :: "nat list"

fun awaiting :: "'e worker \<Rightarrow> bool" where
  "awaiting (Awaiting i) = True"
| "awaiting _ = False"

fun threw :: "'e worker \<Rightarrow> bool" where
  "threw (Threw e) = True"
| "threw _ = False"

text \<open>
  A worker from the test of its loop to its next suspension: it claims \<open>nextIndex\<close>,
  calls \<open>fn\<close> on it and waits, or leaves the loop. \<open>n\<close> is \<open>items.length\<close>.
\<close>

definition worker :: "nat \<Rightarrow> ('e, 'r) pool \<Rightarrow> ('e, 'r) pool \<times> 'e worker" where
  "worker n s =
     (if nextIndex s < n
      then (s\<lparr>nextIndex := nextIndex s + 1, calls := calls s @ [nextIndex s]\<rparr>,
            Awaiting (nextIndex s))
      else (s, Exited))"

text \<open>\<open>Array.from({ length: ... }, () => worker())\<close> starts the workers one after the other.\<close>

fun launch :: "nat \<Rightarrow> nat \<Rightarrow> ('e, 'r) pool \<Rightarrow> ('e, 'r) pool" where
  "launch n 0 s = s"
| "launch n (Suc k) s =
     (let (s', w) = worker n s in launch n k (s'\<lparr>workers := workers s' @ [w]\<rparr>))"

text \<open>
  \<open>fresh\<close> is the state before the first worker starts, \<open>start\<close> the state at
  \<open>await Promise.all(workers)\<close>. \<open>Math.min(concurrency, items.length)\<close> may be
  negative; \<open>Array.from\<close> takes a negative length as 0. The cap is an integer here.
\<close>

definition fresh :: "nat \<Rightarrow> ('e, 'r) pool" where
  "fresh n =
     \<lparr>nextIndex = 0, results = replicate n None, workers = [], rejection = None,
      calls = []\<rparr>"

definition start :: "nat \<Rightarrow> int \<Rightarrow> ('e, 'r) pool" where
  "start n concurrency = launch n (nat (min concurrency (int n))) (fresh n)"

text \<open>
  The promise worker \<open>w\<close> waits for settles. Fulfilled with \<open>v\<close>: the worker stores \<open>v\<close> in
  its slot and goes round its loop. Rejected with \<open>e\<close>: the worker throws \<open>e\<close>, and
  \<open>Promise.all\<close> is rejected with \<open>e\<close> unless it has been rejected before. The other
  workers are not told and go on. \<open>run\<close> resumes only a worker that is waiting, on an
  index it has claimed, which is below \<open>items.length\<close>.
\<close>

definition resume ::
  "('a \<Rightarrow> nat \<Rightarrow> 'e + 'r) \<Rightarrow> 'a list \<Rightarrow> nat \<Rightarrow> ('e, 'r) pool \<Rightarrow> ('e, 'r) pool" where
  "resume fn items w s =
     (case workers s ! w of
        Awaiting i \<Rightarrow>
          (case fn (items ! i) i of
             Inr v \<Rightarrow>
               (let (s', wk) = worker (length items) (s\<lparr>results := (results s)[i := Some v]\<rparr>)
                in s'\<lparr>workers := (workers s')[w := wk]\<rparr>)
           | Inl e \<Rightarrow>
               s\<lparr>workers := (workers s)[w := Threw e],
                 rejection := (case rejection s of None \<Rightarrow> Some e | Some e0 \<Rightarrow> Some e0)\<rparr>)
      | _ \<Rightarrow> s)"

text \<open>
  A run is the list of the workers whose awaited promise settles, in the order of time.
  Only a worker that is waiting can be named; \<open>None\<close> says the list is not a run.
\<close>

fun run ::
  "('a \<Rightarrow> nat \<Rightarrow> 'e + 'r) \<Rightarrow> 'a list \<Rightarrow> nat list \<Rightarrow> ('e, 'r) pool \<Rightarrow> ('e, 'r) pool option" where
  "run fn items [] s = Some s"
| "run fn items (w # ws) s =
     (if w < length (workers s) \<and> awaiting (workers s ! w)
      then run fn items ws (resume fn items w s) else None)"

text \<open>
  \<open>await Promise.all(workers); return results\<close>: rejected with the first rejection,
  fulfilled with the array once every worker has left its loop, pending otherwise.
\<close>

definition promise_all :: "('e, 'r) pool \<Rightarrow> ('e + 'r option list) option" where
  "promise_all s =
     (case rejection s of
        Some e \<Rightarrow> Some (Inl e)
      | None \<Rightarrow> if list_all (\<lambda>w. w = Exited) (workers s) then Some (Inr (results s)) else None)"

definition mapWithConcurrency ::
  "'a list \<Rightarrow> int \<Rightarrow> ('a \<Rightarrow> nat \<Rightarrow> 'e + 'r) \<Rightarrow> nat list \<Rightarrow> ('e, 'r) pool option" where
  "mapWithConcurrency items concurrency fn sched =
     run fn items sched (start (length items) concurrency)"

definition in_flight :: "('e, 'r) pool \<Rightarrow> nat" where
  "in_flight s = length (filter awaiting (workers s))"

section \<open>The route \<open>POST /generate\<close>\<close>

datatype message = MessageOf thrown | UnknownError

datatype response =
    Ok200 "offer_result option list" int
  | ErrorResponse str
  | Failed500 message

text \<open>
  The \<open>catch\<close> of the handler: a \<open>ChatSDKError\<close> answers with its own response, anything
  else with status 500 and the message of the error, or \<open>Unknown error\<close> for a value
  that is no \<open>Error\<close>.
\<close>

definition respond :: "int \<Rightarrow> thrown + offer_result option list \<Rightarrow> response" where
  "respond batchMs out =
     (case out of
        Inr rs \<Rightarrow> Ok200 rs batchMs
      | Inl e \<Rightarrow>
          (case e of
             ChatSDKError code \<Rightarrow> ErrorResponse code
           | NonError \<Rightarrow> Failed500 UnknownError
           | _ \<Rightarrow> Failed500 (MessageOf e)))"

text \<open>
  The handler on a body and a run of the scheduler: the response, and the offers
  \<open>processOffer\<close> was called on. \<open>None\<close>: the list is not a run, or the scheduler is
  still waiting at its end. \<open>batchMs\<close> is the measured duration of the batch.
\<close>

definition generate ::
  "services \<Rightarrow> int \<Rightarrow> json \<Rightarrow> nat list \<Rightarrow> (response \<times> nat list) option" where
  "generate sv batchMs reqBody sched =
     (case offerRequestBodySchema reqBody of
        None \<Rightarrow> Some (ErrorResponse (units ''bad_request:api''), [])
      | Some offers \<Rightarrow>
          (case mapWithConcurrency offers BATCH_CONCURRENCY (\<lambda>offer i. processOffer sv offer) sched of
             None \<Rightarrow> None
           | Some s \<Rightarrow> map_option (\<lambda>out. (respond batchMs out, calls s)) (promise_all s)))"


section \<open>The invariant of a run\<close>

text \<open>
  What holds of the shared variables between any two steps: the claimed indices are
  \<open>0 .. nextIndex - 1\<close>; each of them is still awaited, or its slot holds what \<open>fn\<close>
  returned for it, or \<open>fn\<close> failed on it and its worker has thrown; a worker has left
  its loop only when no index is left; \<open>Promise.all\<close> is rejected exactly when a worker
  has thrown, with a failure of \<open>fn\<close>.
\<close>

definition pool_inv :: "('a \<Rightarrow> nat \<Rightarrow> 'e + 'r) \<Rightarrow> 'a list \<Rightarrow> ('e, 'r) pool \<Rightarrow> bool" where
  "pool_inv fn items s \<longleftrightarrow>
     length (results s) = length items \<and> nextIndex s \<le> length items \<and>
     calls s = [0..<nextIndex s] \<and>
     (\<forall>i<nextIndex s.
        Awaiting i \<in> set (workers s)
        \<or> (\<exists>v. fn (items ! i) i = Inr v \<and> results s ! i = Some v)
        \<or> (\<exists>e. fn (items ! i) i = Inl e \<and> Threw e \<in> set (workers s))) \<and>
     (\<forall>i. Awaiting i \<in> set (workers s) \<longrightarrow> i < nextIndex s) \<and>
     (Exited \<in> set (workers s) \<longrightarrow> nextIndex s = length items) \<and>
     (rejection s = None \<longleftrightarrow> (\<forall>w\<in>set (workers s). \<not> threw w)) \<and>
     (\<forall>e. rejection s = Some e \<longrightarrow> (\<exists>i<nextIndex s. fn (items ! i) i = Inl e))"

section \<open>The batch shape in the specification's words\<close>

text \<open>
  An item is within its bounds when it is an object whose \<open>offerType\<close> is one of the
  tags, whose \<open>offerDescription\<close> is a text of 1 to 2000 code units, and whose
  \<open>existingCopy\<close> is absent or a text of at most 5000 code units. A body has the batch
  shape when its \<open>offers\<close> is an array of 1 to 50 such items.
\<close>

definition item_in_bounds :: "json \<Rightarrow> bool" where
  "item_in_bounds x =
     (case x of
        JObject kvs \<Rightarrow>
          (case map_of kvs (units ''offerType'') of
             Some (JString t) \<Rightarrow> t \<in> set OFFER_TYPES
           | _ \<Rightarrow> False) \<and>
          (case map_of kvs (units ''offerDescription'') of
             Some (JString d) \<Rightarrow> 1 \<le> length d \<and> length d \<le> 2000
           | _ \<Rightarrow> False) \<and>
          (case map_of kvs (units ''existingCopy'') of
             None \<Rightarrow> True
           | Some (JString e) \<Rightarrow> length e \<le> 5000
           | _ \<Rightarrow> False)
      | _ \<Rightarrow> False)"

definition batch_shape :: "json \<Rightarrow> bool" where
  "batch_shape reqBody =
     (case reqBody of
        JObject kvs \<Rightarrow>
          (case map_of kvs (units ''offers'') of
             Some (JArray xs) \<Rightarrow> 1 \<le> length xs \<and> length xs \<le> 50 \<and> list_all item_in_bounds xs
           | _ \<Rightarrow> False)
      | _ \<Rightarrow> False)"

section \<open>The shape of a copy document\<close>

text \<open>
  What the fields of a document must be for the output schema: \<open>headline\<close>, \<open>body\<close>
  and \<open>callToAction\<close> bound to a text, \<open>subheadline\<close> and \<open>legalDisclaimer\<close> bound to
  a text or to \<open>null\<close>. Nothing is asked of other keys.
\<close>

definition is_text :: "json option \<Rightarrow> bool" where
  "is_text v = (case v of Some (JString s) \<Rightarrow> True | _ \<Rightarrow> False)"

definition is_text_or_null :: "json option \<Rightarrow> bool" where
  "is_text_or_null v = (case v of Some (JString s) \<Rightarrow> True | Some JNull \<Rightarrow> True | _ \<Rightarrow> False)"

definition copy_shape :: "json \<Rightarrow> bool" where
  "copy_shape j =
     (case j of
        JObject kvs \<Rightarrow>
          is_text (map_of kvs (units ''headline'')) \<and>
          is_text_or_null (map_of kvs (units ''subheadline'')) \<and>
          is_text (map_of kvs (units ''body'')) \<and>
          is_text (map_of kvs (units ''callToAction'')) \<and>
          is_text_or_null (map_of kvs (units ''legalDisclaimer''))
      | _ \<Rightarrow> False)"

section \<open>Fenced and unfenced texts\<close>

text \<open>
  A text is fenced at its start when it begins with three backticks, and at its end
  when, trailing white space apart, it ends with three backticks. \<open>wrap\<close> puts a text
  in a fenced block: the opening fence with its tag (nothing, or \<open>json\<close> in any case)
  and the white space \<open>a\<close> after it, the text, the white space \<open>b\<close>, the closing fence,
  and trailing white space \<open>c\<close>; each of \<open>a\<close>, \<open>b\<close> and \<open>c\<close> may be empty. A text
  begins with \<open>json\<close> when its first four code units spell it in any case: glued to a
  bare opening fence, these are read as the tag.
\<close>

definition fenced_open :: "str \<Rightarrow> bool" where
  "fenced_open t \<longleftrightarrow> strip_prefix fence t \<noteq> None"

definition fenced_close :: "str \<Rightarrow> bool" where
  "fenced_close t \<longleftrightarrow> strip_prefix (rev fence) (dropWhile is_space (rev t)) \<noteq> None"

definition is_json_tag :: "str \<Rightarrow> bool" where
  "is_json_tag tag \<longleftrightarrow> tag = [] \<or> map canonicalize tag = map canonicalize (units ''json'')"

definition begins_json :: "str \<Rightarrow> bool" where
  "begins_json t \<longleftrightarrow> strip_prefix_ci (units ''json'') t \<noteq> None"

definition wrap :: "str \<Rightarrow> str \<Rightarrow> str \<Rightarrow> str \<Rightarrow> str \<Rightarrow> str" where
  "wrap tag a t b c = fence @ tag @ a @ t @ b @ fence @ c"

text \<open>A text without its trailing white space.\<close>

definition rtrim :: "str \<Rightarrow> str" where
  "rtrim s = rev (dropWhile is_space (rev s))"


section \<open>Sample inputs\<close>

text \<open>
  Two task functions for the scheduler: one that always returns, one whose call on
  index 0 fails.
\<close>

definition task_ok :: "nat \<Rightarrow> nat \<Rightarrow> string + nat" where
  "task_ok x i = Inr (x + i)"

definition task_fail_first :: "nat \<Rightarrow> nat \<Rightarrow> string + nat" where
  "task_fail_first x i = (if i = 0 then Inl ''boom'' else Inr (x + i))"

text \<open>
  Three items under cap 2 with \<open>task_ok\<close>: the state once worker 1, worker 0 and worker 1
  again have been resumed, and the state one step before.
\<close>

definition pool_done :: "(string, nat) pool" where
  "pool_done =
     \<lparr>nextIndex = 3, results = [Some 10, Some 21, Some 32], workers = [Exited, Exited],
      rejection = None, calls = [0, 1, 2]\<rparr>"

definition pool_last_call :: "(string, nat) pool" where
  "pool_last_call =
     \<lparr>nextIndex = 3, results = [Some 10, Some 21, None], workers = [Exited, Awaiting 2],
      rejection = None, calls = [0, 1, 2]\<rparr>"

text \<open>
  Two items under cap 2 with \<open>task_fail_first\<close>, once worker 0 has been resumed: the
  call on index 1 is still in flight.
\<close>

definition pool_failed :: "(string, nat) pool" where
  "pool_failed =
     \<lparr>nextIndex = 2, results = [None, None], workers = [Threw ''boom'', Awaiting 1],
      rejection = Some ''boom'', calls = [0, 1]\<rparr>"

text \<open>
  A response text and the document it parses to, a \<open>JSON.parse\<close> that knows this one
  text, and two generation services: one that always answers with the text, one that
  fails for the offer described as \<open>late\<close>.
\<close>

definition copy_text :: str where
  "copy_text = units ''{\"headline\":\"Save 20%\",\"subheadline\":null,\"body\":\"...\",\"callToAction\":\"Shop Now\",\"legalDisclaimer\":null}''"

definition copy_doc :: json where
  "copy_doc =
     JObject
       [(units ''headline'', JString (units ''Save 20%'')),
        (units ''subheadline'', JNull),
        (units ''body'', JString (units ''...'')),
        (units ''callToAction'', JString (units ''Shop Now'')),
        (units ''legalDisclaimer'', JNull)]"

definition copy_record :: offer_copy where
  "copy_record =
     \<lparr>headline = units ''Save 20%'', subheadline = None, body = units ''...'',
      callToAction = units ''Shop Now'', legalDisclaimer = None\<rparr>"

definition parse_known :: "str \<Rightarrow> json option" where
  "parse_known t = (if t = copy_text then Some copy_doc else None)"

definition service_ok :: services where
  "service_ok =
     \<lparr>buildOfferSystemPrompt = (\<lambda>t. []),
      generateText = (\<lambda>system prompt ms. Inr copy_text),
      JSON_parse = parse_known,
      elapsed = (\<lambda>offer. 7)\<rparr>"

definition offer_shoes :: offer_input where
  "offer_shoes =
     \<lparr>offerType = units ''discount'', offerDescription = units ''20% off shoes'',
      existingCopy = None\<rparr>"

definition offer_late :: offer_input where
  "offer_late =
     \<lparr>offerType = units ''bundle'', offerDescription = units ''late'',
      existingCopy = None\<rparr>"

definition service_late :: services where
  "service_late =
     \<lparr>buildOfferSystemPrompt = (\<lambda>t. []),
      generateText = (\<lambda>system prompt ms.
        if prompt = userPrompt offer_late then Inl (Error (units ''timeout'')) else Inr copy_text),
      JSON_parse = parse_known,
      elapsed = (\<lambda>offer. 7)\<rparr>"


definition item_shoes :: json where
  "item_shoes =
     JObject
       [(units ''offerType'', JString (units ''discount'')),
        (units ''offerDescription'', JString (units ''20% off shoes''))]"

definition item_late :: json where
  "item_late =
     JObject
       [(units ''offerType'', JString (units ''bundle'')),
        (units ''offerDescription'', JString (units ''late''))]"

definition body_of :: "json list \<Rightarrow> json" where
  "body_of xs = JObject [(units ''offers'', JArray xs)]"

definition result_shoes :: offer_result where
  "result_shoes =
     \<lparr>res_offerType = units ''discount'', res_offerDescription = units ''20% off shoes'',
      res_mode = Generated, res_copy = copy_record, processingTimeMs = 7\<rparr>"

text \<open>
  The two offers under \<open>service_late\<close>, once worker 0 and then worker 1 have been
  resumed: the first task has completed, the second has failed.
\<close>

definition pool_late :: "(thrown, offer_result) pool" where
  "pool_late =
     \<lparr>nextIndex = 2, results = [Some result_shoes, None],
      workers = [Exited, Threw (Error (units ''timeout''))],
      rejection = Some (Error (units ''timeout'')), calls = [0, 1]\<rparr>"

text \<open>An offer whose \<open>existingCopy\<close> is present and empty, and its result under \<open>service_ok\<close>.\<close>

definition item_blank :: json where
  "item_blank =
     JObject
       [(units ''offerType'', JString (units ''discount'')),
        (units ''offerDescription'', JString (units ''20% off shoes'')),
        (units ''existingCopy'', JString [])]"

definition offer_blank :: offer_input where
  "offer_blank =
     \<lparr>offerType = units ''discount'', offerDescription = units ''20% off shoes'',
      existingCopy = Some []\<rparr>"

text \<open>An offer with copy to revise.\<close>

definition offer_revise :: offer_input where
  "offer_revise =
     \<lparr>offerType = units ''discount'', offerDescription = units ''20% off shoes'',
      existingCopy = Some (units ''Get a discount on shoes!'')\<rparr>"

text \<open>
  The sample document with a sixth field, without its \<open>callToAction\<close>, and with a
  number for \<open>subheadline\<close>.
\<close>

definition copy_doc_extra :: json where
  "copy_doc_extra =
     JObject
       [(units ''headline'', JString (units ''Save 20%'')),
        (units ''subheadline'', JNull),
        (units ''body'', JString (units ''...'')),
        (units ''callToAction'', JString (units ''Shop Now'')),
        (units ''legalDisclaimer'', JNull),
        (units ''internalNote'', JString (units ''draft''))]"

definition copy_doc_no_cta :: json where
  "copy_doc_no_cta =
     JObject
       [(units ''headline'', JString (units ''Save 20%'')),
        (units ''subheadline'', JNull),
        (units ''body'', JString (units ''...'')),
        (units ''legalDisclaimer'', JNull)]"

definition copy_doc_sub_number :: json where
  "copy_doc_sub_number =
     JObject
       [(units ''headline'', JString (units ''Save 20%'')),
        (units ''subheadline'', JNumber 5),
        (units ''body'', JString (units ''...'')),
        (units ''callToAction'', JString (units ''Shop Now'')),
        (units ''legalDisclaimer'', JNull)]"


section \<open>Invariants of a run of the scheduler\<close>

lemma inv_launch_step:
  assumes "pool_inv fn items s" "worker (length items) s = (s', w)"
  shows "pool_inv fn items (s'\<lparr>workers := workers s' @ [w]\<rparr>)"
  using assms unfolding pool_inv_def worker_def
  by (auto split: if_splits simp: less_Suc_eq)

lemma inv_launch: "pool_inv fn items s \<Longrightarrow> pool_inv fn items (launch (length items) k s)"
proof (induction k arbitrary: s)
  case 0
  then show ?case by simp
next
  case (Suc k)
  obtain s' w where sw: "worker (length items) s = (s', w)" by (cases "worker (length items) s")
  from inv_launch_step[OF Suc.prems sw] Suc.IH sw show ?case by simp
qed

lemma inv_start: "pool_inv fn items (start (length items) K)"
  unfolding start_def by (rule inv_launch) (simp add: pool_inv_def fresh_def)

lemma set_update_awaiting:
  "w < length ws \<Longrightarrow> x \<in> set ws \<Longrightarrow> x \<noteq> ws ! w \<Longrightarrow> x \<in> set (ws[w := y])"
  by (metis in_set_conv_nth length_list_update nth_list_update_neq)



lemma set_update_cases:
  "x \<in> set (ws[w := y]) \<Longrightarrow> x = y \<or> x \<in> set ws"
  using set_update_subset_insert[of ws w y] by auto

lemma inv_resume_ok:
  fixes s :: "('e, 'r) pool"
  assumes I: "pool_inv fn items s" and w: "w < length (workers s)"
    and a: "workers s ! w = Awaiting i" and f: "fn (items ! i) i = Inr v"
  shows "pool_inv fn items (resume fn items w s)"
proof -
  define n where "n = nextIndex s"
  define y :: "'e worker" where "y = (if n < length items then Awaiting n else Exited)"
  define n' where "n' = (if n < length items then Suc n else n)"
  define ws' where "ws' = (workers s)[w := y]"
  define rs' where "rs' = (results s)[i := Some v]"
  have r: "resume fn items w s =
      s\<lparr>results := rs', nextIndex := n', calls := [0..<n'], workers := ws'\<rparr>"
    using I unfolding pool_inv_def
    by (simp add: resume_def a f worker_def n_def y_def n'_def ws'_def rs'_def)
  have i: "i < n" using I w a unfolding pool_inv_def n_def by (metis nth_mem)
  have iN: "i < length (results s)" using I i unfolding pool_inv_def n_def by simp
  have nn: "n \<le> n'" "n' \<le> length items"
    using I unfolding pool_inv_def n_def n'_def by auto
  have A: "\<And>x. x \<in> set ws' \<Longrightarrow> x = y \<or> x \<in> set (workers s)"
    unfolding ws'_def by (rule set_update_cases)
  have B: "\<And>x. x \<in> set (workers s) \<Longrightarrow> x \<noteq> Awaiting i \<Longrightarrow> x \<in> set ws'"
    unfolding ws'_def using set_update_awaiting[OF w] a by metis
  have C: "y \<in> set ws'" unfolding ws'_def using w by (simp add: set_update_memI)
  have c4: "Awaiting j \<in> set ws'
        \<or> (\<exists>v. fn (items ! j) j = Inr v \<and> rs' ! j = Some v)
        \<or> (\<exists>e. fn (items ! j) j = Inl e \<and> Threw e \<in> set ws')" if j: "j < n'" for j
  proof (cases "j < n")
    case False
    with j have "y = Awaiting j" unfolding n'_def y_def by (auto split: if_splits)
    with C show ?thesis by simp
  next
    case True
    show ?thesis
    proof (cases "j = i")
      case True
      then show ?thesis using f iN unfolding rs'_def by simp
    next
      case False
      from I \<open>j < n\<close> have "Awaiting j \<in> set (workers s)
        \<or> (\<exists>v. fn (items ! j) j = Inr v \<and> results s ! j = Some v)
        \<or> (\<exists>e. fn (items ! j) j = Inl e \<and> Threw e \<in> set (workers s))"
        unfolding pool_inv_def n_def by blast
      then show ?thesis
      proof (elim disjE exE conjE)
        assume "Awaiting j \<in> set (workers s)"
        with B False show ?thesis by simp
      next
        fix v' assume "fn (items ! j) j = Inr v'" "results s ! j = Some v'"
        with False show ?thesis unfolding rs'_def by simp
      next
        fix e assume "fn (items ! j) j = Inl e" "Threw e \<in> set (workers s)"
        with B show ?thesis by blast
      qed
    qed
  qed
  have c5: "j < n'" if "Awaiting j \<in> set ws'" for j
  proof -
    from A[OF that] have "Awaiting j = y \<or> Awaiting j \<in> set (workers s)" .
    then show ?thesis
    proof
      assume "Awaiting j = y"
      then show ?thesis unfolding y_def n'_def by (auto split: if_splits)
    next
      assume "Awaiting j \<in> set (workers s)"
      with I have "j < n" unfolding pool_inv_def n_def by blast
      with nn show ?thesis by simp
    qed
  qed
  have c6: "n' = length items" if "Exited \<in> set ws'"
  proof -
    from A[OF that] have "Exited = y \<or> Exited \<in> set (workers s)" .
    then show ?thesis
    proof
      assume "Exited = y"
      then show ?thesis using nn unfolding y_def n'_def by (auto split: if_splits)
    next
      assume "Exited \<in> set (workers s)"
      with I have "n = length items" unfolding pool_inv_def n_def by blast
      then show ?thesis unfolding n'_def by simp
    qed
  qed
  have ny: "\<not> threw y" unfolding y_def by simp
  have c7: "rejection s = None \<longleftrightarrow> (\<forall>x\<in>set ws'. \<not> threw x)"
  proof
    assume "rejection s = None"
    with I have "\<forall>x\<in>set (workers s). \<not> threw x" unfolding pool_inv_def by blast
    with A ny show "\<forall>x\<in>set ws'. \<not> threw x" by blast
  next
    assume h: "\<forall>x\<in>set ws'. \<not> threw x"
    have "\<forall>x\<in>set (workers s). \<not> threw x"
    proof
      fix x assume x: "x \<in> set (workers s)"
      show "\<not> threw x"
      proof (cases "x = Awaiting i")
        case True then show ?thesis by simp
      next
        case False with B x h show ?thesis by blast
      qed
    qed
    with I show "rejection s = None" unfolding pool_inv_def by blast
  qed
  have c8: "\<exists>j<n'. fn (items ! j) j = Inl e" if "rejection s = Some e" for e
  proof -
    from I that obtain j where "j < n" "fn (items ! j) j = Inl e"
      unfolding pool_inv_def n_def by blast
    with nn show ?thesis by (meson less_le_trans)
  qed
  have c1: "length rs' = length items" using I unfolding rs'_def pool_inv_def by simp
  show ?thesis
    unfolding r pool_inv_def using c1 nn(2) c4 c5 c6 c7 c8 by simp
qed


lemma inv_resume_fail:
  fixes s :: "('e, 'r) pool"
  assumes I: "pool_inv fn items s" and w: "w < length (workers s)"
    and a: "workers s ! w = Awaiting i" and f: "fn (items ! i) i = Inl e"
  shows "pool_inv fn items (resume fn items w s)"
proof -
  define n where "n = nextIndex s"
  define ws' where "ws' = (workers s)[w := Threw e]"
  define rj' where "rj' = (case rejection s of None \<Rightarrow> Some e | Some e0 \<Rightarrow> Some e0)"
  have r: "resume fn items w s = s\<lparr>workers := ws', rejection := rj'\<rparr>"
    by (simp add: resume_def a f ws'_def rj'_def)
  have i: "i < n" using I w a unfolding pool_inv_def n_def by (metis nth_mem)
  have A: "\<And>x. x \<in> set ws' \<Longrightarrow> x = Threw e \<or> x \<in> set (workers s)"
    unfolding ws'_def by (rule set_update_cases)
  have B: "\<And>x. x \<in> set (workers s) \<Longrightarrow> x \<noteq> Awaiting i \<Longrightarrow> x \<in> set ws'"
    unfolding ws'_def using set_update_awaiting[OF w] a by metis
  have C: "Threw e \<in> set ws'" unfolding ws'_def using w by (simp add: set_update_memI)
  have c4: "Awaiting j \<in> set ws'
        \<or> (\<exists>v. fn (items ! j) j = Inr v \<and> results s ! j = Some v)
        \<or> (\<exists>e. fn (items ! j) j = Inl e \<and> Threw e \<in> set ws')" if j: "j < n" for j
  proof (cases "j = i")
    case True
    then show ?thesis using f C by blast
  next
    case False
    from I j have "Awaiting j \<in> set (workers s)
      \<or> (\<exists>v. fn (items ! j) j = Inr v \<and> results s ! j = Some v)
      \<or> (\<exists>e. fn (items ! j) j = Inl e \<and> Threw e \<in> set (workers s))"
      unfolding pool_inv_def n_def by blast
    then show ?thesis
    proof (elim disjE exE conjE)
      assume "Awaiting j \<in> set (workers s)"
      with B False show ?thesis by simp
    next
      fix v' assume "fn (items ! j) j = Inr v'" "results s ! j = Some v'"
      then show ?thesis by simp
    next
      fix e' assume "fn (items ! j) j = Inl e'" "Threw e' \<in> set (workers s)"
      with B show ?thesis by blast
    qed
  qed
  have c5: "j < n" if "Awaiting j \<in> set ws'" for j
    using A[OF that] I unfolding pool_inv_def n_def by blast
  have c6: "n = length items" if "Exited \<in> set ws'"
    using A[OF that] I unfolding pool_inv_def n_def by blast
  have "threw (Threw e)" by simp
  with C have "\<exists>x\<in>set ws'. threw x" by blast
  moreover have "rj' \<noteq> None" unfolding rj'_def by (simp split: option.splits)
  ultimately have c7: "rj' = None \<longleftrightarrow> (\<forall>x\<in>set ws'. \<not> threw x)" by blast
  have c8: "\<exists>j<n. fn (items ! j) j = Inl e'" if "rj' = Some e'" for e'
  proof (cases "rejection s")
    case None
    with that have "e' = e" unfolding rj'_def by simp
    with i f show ?thesis by blast
  next
    case (Some e0)
    with that have "rejection s = Some e'" unfolding rj'_def by simp
    with I show ?thesis unfolding pool_inv_def n_def by blast
  qed
  have c1: "length (results s) = length items" "n \<le> length items" "calls s = [0..<n]"
    using I unfolding pool_inv_def n_def by simp_all
  show ?thesis
    unfolding r pool_inv_def using c1 c4 c5 c6 c7 c8 unfolding n_def by simp
qed

lemma inv_resume:
  assumes "pool_inv fn items s" "w < length (workers s)" "awaiting (workers s ! w)"
  shows "pool_inv fn items (resume fn items w s)"
proof -
  from assms(3) obtain i where a: "workers s ! w = Awaiting i"
    by (cases "workers s ! w") simp_all
  show ?thesis
  proof (cases "fn (items ! i) i")
    case (Inl e)
    from inv_resume_fail[OF assms(1,2) a Inl] show ?thesis .
  next
    case (Inr v)
    from inv_resume_ok[OF assms(1,2) a Inr] show ?thesis .
  qed
qed

lemma inv_run:
  "pool_inv fn items s \<Longrightarrow> run fn items sched s = Some s' \<Longrightarrow> pool_inv fn items s'"
proof (induction sched arbitrary: s)
  case Nil
  then show ?case by simp
next
  case (Cons w ws)
  from Cons.prems(2) have g: "w < length (workers s)" "awaiting (workers s ! w)"
    and r: "run fn items ws (resume fn items w s) = Some s'"
    by (auto split: if_splits)
  from Cons.IH[OF inv_resume[OF Cons.prems(1) g] r] show ?case .
qed

lemma inv_mapWithConcurrency:
  "mapWithConcurrency items K fn sched = Some s \<Longrightarrow> pool_inv fn items s"
  unfolding mapWithConcurrency_def using inv_run[OF inv_start] by blast

subsection \<open>Counting\<close>

lemma filter_update_count:
  "w < length xs \<Longrightarrow>
   length (filter P (xs[w := y])) + (if P (xs ! w) then 1 else 0)
     = length (filter P xs) + (if P y then 1 else 0)"
proof (induction xs arbitrary: w)
  case Nil
  then show ?case by simp
next
  case (Cons x xs)
  then show ?case by (cases w) auto
qed

lemma counted_launch:
  "nextIndex s = in_flight s + c \<Longrightarrow> nextIndex (launch n k s) = in_flight (launch n k s) + c"
proof (induction k arbitrary: s)
  case 0
  then show ?case by simp
next
  case (Suc k)
  define s1 where "s1 = (fst (worker n s))\<lparr>workers := workers (fst (worker n s)) @ [snd (worker n s)]\<rparr>"
  have "nextIndex s1 = in_flight s1 + c"
    using Suc.prems unfolding s1_def worker_def in_flight_def by simp
  from Suc.IH[OF this] show ?case by (simp add: case_prod_beta s1_def)
qed

lemma counted_resume:
  assumes c: "nextIndex s = in_flight s + k" and w: "w < length (workers s)"
    and a: "awaiting (workers s ! w)"
  shows "nextIndex (resume fn items w s) = in_flight (resume fn items w s) + Suc k"
proof -
  from a obtain i where i: "workers s ! w = Awaiting i"
    by (cases "workers s ! w") simp_all
  have u: "\<And>y. length (filter awaiting ((workers s)[w := y])) + 1
      = length (filter awaiting (workers s)) + (if awaiting y then 1 else 0)"
    using filter_update_count[OF w, of awaiting] a by simp
  show ?thesis
  proof (cases "fn (items ! i) i")
    case (Inl e)
    with i u[of "Threw e"] c show ?thesis
      unfolding in_flight_def resume_def by simp
  next
    case (Inr v)
    with i u[of "Awaiting (nextIndex s)"] u[of Exited] c show ?thesis
      unfolding in_flight_def resume_def worker_def by simp
  qed
qed

lemma counted_run:
  "nextIndex s = in_flight s + k \<Longrightarrow> run fn items sched s = Some s' \<Longrightarrow>
   nextIndex s' = in_flight s' + (k + length sched)"
proof (induction sched arbitrary: s k)
  case Nil
  then show ?case by simp
next
  case (Cons w ws)
  from Cons.prems(2) have g: "w < length (workers s)" "awaiting (workers s ! w)"
    and r: "run fn items ws (resume fn items w s) = Some s'"
    by (auto split: if_splits)
  from Cons.IH[OF counted_resume[OF Cons.prems(1) g] r] show ?case by simp
qed

lemma counted_mapWithConcurrency:
  fixes s :: "('e, 'r) pool"
  assumes r: "mapWithConcurrency items K fn sched = Some s"
  shows "nextIndex s = in_flight s + length sched"
proof -
  have "nextIndex (fresh (length items) :: ('e, 'r) pool)
      = in_flight (fresh (length items) :: ('e, 'r) pool) + 0"
    by (simp add: fresh_def in_flight_def)
  from counted_launch[OF this] have
    "nextIndex (start (length items) K :: ('e, 'r) pool)
      = in_flight (start (length items) K :: ('e, 'r) pool) + 0"
    unfolding start_def .
  from counted_run[OF this] r show ?thesis
    unfolding mapWithConcurrency_def by fastforce
qed

subsection \<open>Number of workers\<close>

lemma length_workers_launch:
  "length (workers (launch n k s)) = length (workers s) + k"
  by (induction k arbitrary: s) (simp_all add: worker_def)

lemma length_workers_resume:
  "length (workers (resume fn items w s)) = length (workers s)"
  by (simp add: resume_def worker_def split: worker.splits sum.splits)

lemma length_workers_run:
  "run fn items sched s = Some s' \<Longrightarrow> length (workers s') = length (workers s)"
  by (induction sched arbitrary: s) (auto split: if_splits simp: length_workers_resume)

lemma length_workers_mapWithConcurrency:
  "mapWithConcurrency items K fn sched = Some s \<Longrightarrow>
   length (workers s) = nat (min K (int (length items)))"
  unfolding mapWithConcurrency_def start_def
  by (drule length_workers_run) (simp add: length_workers_launch fresh_def)


subsection \<open>What a settled scheduler has done\<close>

lemma pending_has_awaiting:
  assumes I: "pool_inv fn items s" and p: "promise_all s = None"
  shows "\<exists>w<length (workers s). awaiting (workers s ! w)"
proof -
  from p have rj: "rejection s = None" and ne: "\<not> list_all (\<lambda>w. w = Exited) (workers s)"
    unfolding promise_all_def by (auto split: option.splits if_splits)
  from ne obtain x where x: "x \<in> set (workers s)" "x \<noteq> Exited"
    unfolding list_all_iff by blast
  from I rj x have "\<not> threw x" unfolding pool_inv_def by blast
  moreover have "\<not> threw x \<Longrightarrow> x \<noteq> Exited \<Longrightarrow> awaiting x" by (cases x) simp_all
  ultimately have "awaiting x" using x(2) by blast
  with x show ?thesis by (metis in_set_conv_nth)
qed

lemma in_flight_pos:
  "w < length (workers s) \<Longrightarrow> awaiting (workers s ! w) \<Longrightarrow> 0 < in_flight s"
  unfolding in_flight_def by (metis filter_empty_conv length_greater_0_conv nth_mem)

lemma in_flight_zero:
  "\<forall>x\<in>set (workers s). \<not> awaiting x \<Longrightarrow> in_flight s = 0"
  unfolding in_flight_def by (simp add: filter_empty_conv)

lemma fulfilled_complete:
  assumes r: "mapWithConcurrency items K fn sched = Some s"
    and K: "1 \<le> K" and p: "promise_all s = Some (Inr rs)"
  shows "length sched = length items \<and> list_all (\<lambda>w. w = Exited) (workers s) \<and>
         length rs = length items \<and> (\<forall>i<length items. \<exists>v. rs ! i = Some v \<and> fn (items ! i) i = Inr v)"
proof -
  note I = inv_mapWithConcurrency[OF r]
  from p have rj: "rejection s = None" and ex: "list_all (\<lambda>w. w = Exited) (workers s)"
    and rs: "rs = results s"
    unfolding promise_all_def by (auto split: option.splits if_splits)
  from ex have allE: "\<And>x. x \<in> set (workers s) \<Longrightarrow> x = Exited" unfolding list_all_iff by blast
  have "\<forall>x\<in>set (workers s). \<not> awaiting x"
  proof
    fix x assume "x \<in> set (workers s)"
    then have "x = Exited" by (rule allE)
    then show "\<not> awaiting x" by simp
  qed
  then have "in_flight s = 0" by (rule in_flight_zero)
  with counted_mapWithConcurrency[OF r] have n: "nextIndex s = length sched" by simp
  have full: "nextIndex s = length items"
  proof (cases "workers s = []")
    case True
    with length_workers_mapWithConcurrency[OF r] K have "length items = 0" by (simp add: min_def split: if_splits)
    with I show ?thesis unfolding pool_inv_def by simp
  next
    case False
    then obtain x where "x \<in> set (workers s)" by (cases "workers s") auto
    with allE have "Exited \<in> set (workers s)" by metis
    with I show ?thesis unfolding pool_inv_def by blast
  qed
  have "\<exists>v. rs ! i = Some v \<and> fn (items ! i) i = Inr v" if i: "i < length items" for i
  proof -
    from I i full have "Awaiting i \<in> set (workers s)
        \<or> (\<exists>v. fn (items ! i) i = Inr v \<and> results s ! i = Some v)
        \<or> (\<exists>e. fn (items ! i) i = Inl e \<and> Threw e \<in> set (workers s))"
      unfolding pool_inv_def by simp
    moreover have "Awaiting i \<notin> set (workers s)" using allE by blast
    moreover have "\<And>e. Threw e \<notin> set (workers s)" using allE by blast
    ultimately show ?thesis unfolding rs by blast
  qed
  moreover have "length rs = length items" using I unfolding rs pool_inv_def by simp
  ultimately show ?thesis using n full ex by simp
qed

lemma rejected_is_failure:
  assumes r: "mapWithConcurrency items K fn sched = Some s"
    and p: "promise_all s = Some (Inl e)"
  shows "\<exists>i<length items. i \<in> set (calls s) \<and> fn (items ! i) i = Inl e"
proof -
  note I = inv_mapWithConcurrency[OF r]
  from p have "rejection s = Some e"
    unfolding promise_all_def by (auto split: option.splits if_splits)
  with I obtain i where "i < nextIndex s" "fn (items ! i) i = Inl e"
    unfolding pool_inv_def by blast
  moreover from I have "calls s = [0..<nextIndex s]" "nextIndex s \<le> length items"
    unfolding pool_inv_def by simp_all
  ultimately show ?thesis by (intro exI[of _ i]) simp
qed

lemma threw_rejects:
  assumes r: "mapWithConcurrency items K fn sched = Some s"
    and t: "list_ex threw (workers s)"
  shows "\<exists>e. promise_all s = Some (Inl e)"
proof -
  note I = inv_mapWithConcurrency[OF r]
  from t I have "rejection s \<noteq> None" unfolding pool_inv_def list_ex_iff by blast
  then show ?thesis unfolding promise_all_def by (auto split: option.splits)
qed

lemma in_flight_launch: "in_flight (launch n k s) \<le> in_flight s + k"
proof (induction k arbitrary: s)
  case 0
  then show ?case by simp
next
  case (Suc k)
  define s1 where "s1 = (fst (worker n s))\<lparr>workers := workers (fst (worker n s)) @ [snd (worker n s)]\<rparr>"
  have "in_flight s1 \<le> in_flight s + 1" unfolding s1_def in_flight_def worker_def by simp
  with Suc.IH[of s1] show ?case by (simp add: case_prod_beta s1_def)
qed

lemma length_sched_le:
  assumes r: "mapWithConcurrency items K fn sched = Some s"
  shows "length sched \<le> length items"
proof -
  from inv_mapWithConcurrency[OF r] have "nextIndex s \<le> length items"
    unfolding pool_inv_def by simp
  with counted_mapWithConcurrency[OF r] show ?thesis by simp
qed

lemma settled_with_failing_task:
  assumes r: "mapWithConcurrency items K fn sched = Some s" and K: "1 \<le> K"
    and bad: "\<exists>i<length items. isl (fn (items ! i) i)"
    and p: "promise_all s = Some out"
  shows "\<exists>e j. out = Inl e \<and> j < length items \<and> j \<in> set (calls s) \<and> fn (items ! j) j = Inl e"
proof (cases out)
  case (Inl e)
  with rejected_is_failure[OF r] p show ?thesis by blast
next
  case (Inr rs)
  from fulfilled_complete[OF r K p[unfolded Inr]]
  have "\<forall>i<length items. \<exists>v. fn (items ! i) i = Inr v" by blast
  with bad show ?thesis by fastforce
qed

lemma respond_failure: "respond batchMs (Inl e) \<noteq> Ok200 rs t"
  by (cases e) (simp_all add: respond_def)


lemma run_append:
  "run fn items (a @ b) s = (case run fn items a s of None \<Rightarrow> None | Some s' \<Rightarrow> run fn items b s')"
  by (induction a arbitrary: s) simp_all

lemma run_extend:
  assumes r: "mapWithConcurrency items K fn sched = Some s"
    and w: "w < length (workers s)" "awaiting (workers s ! w)"
  shows "mapWithConcurrency items K fn (sched @ [w]) = Some (resume fn items w s)"
  using r w unfolding mapWithConcurrency_def by (simp add: run_append)

section \<open>The request schema against the batch shape\<close>

lemma offerInputSchema_iff: "offerInputSchema x \<noteq> None \<longleftrightarrow> item_in_bounds x"
  unfolding offerInputSchema_def item_in_bounds_def z_enum_def z_string_min_max_def
    z_optional_def z_string_max_def z_string_def
  by (auto split: json.splits option.splits if_splits)

lemma those_map_iff: "those (map f xs) \<noteq> None \<longleftrightarrow> list_all (\<lambda>x. f x \<noteq> None) xs"
  by (induction xs) (auto split: option.splits)

lemma offerRequestBodySchema_iff: "offerRequestBodySchema reqBody \<noteq> None \<longleftrightarrow> batch_shape reqBody"
proof -
  have "\<And>xs. those (map offerInputSchema xs) \<noteq> None \<longleftrightarrow> list_all item_in_bounds xs"
    unfolding those_map_iff offerInputSchema_iff ..
  then show ?thesis
  unfolding offerRequestBodySchema_def batch_shape_def
  by (auto split: json.splits option.splits)
qed

lemma batch_shape_body_of:
  "list_all item_in_bounds xs \<Longrightarrow> batch_shape (body_of xs) \<longleftrightarrow> 1 \<le> length xs \<and> length xs \<le> 50"
  by (simp add: batch_shape_def body_of_def)

lemma OFFER_TYPES_closed: "length OFFER_TYPES = 8 \<and> distinct OFFER_TYPES"
  by code_simp


section \<open>The output schema\<close>

lemma offerCopySchema_iff: "offerCopySchema j \<noteq> None \<longleftrightarrow> copy_shape j"
  unfolding offerCopySchema_def copy_shape_def is_text_def is_text_or_null_def z_string_def z_nullable_def
  by (auto split: json.splits option.splits)

lemma map_of_append_Some: "map_of kvs k = Some v \<Longrightarrow> map_of (kvs @ extra) k = Some v"
  by (simp add: map_add_Some_iff)

lemma offerCopySchema_extra:
  assumes "offerCopySchema (JObject kvs) = Some r"
  shows "offerCopySchema (JObject (kvs @ extra)) = Some r"
proof -
  from assms obtain h s b c l where
    "map_of kvs (units ''headline'') = Some h" 
    "map_of kvs (units ''subheadline'') = Some s"
    "map_of kvs (units ''body'') = Some b"
    "map_of kvs (units ''callToAction'') = Some c"
    "map_of kvs (units ''legalDisclaimer'') = Some l"
    unfolding offerCopySchema_def z_string_def z_nullable_def
    by (auto split: option.splits json.splits)
  then have "map_of (kvs @ extra) (units ''headline'') = map_of kvs (units ''headline'')"
    "map_of (kvs @ extra) (units ''subheadline'') = map_of kvs (units ''subheadline'')"
    "map_of (kvs @ extra) (units ''body'') = map_of kvs (units ''body'')"
    "map_of (kvs @ extra) (units ''callToAction'') = map_of kvs (units ''callToAction'')"
    "map_of (kvs @ extra) (units ''legalDisclaimer'') = map_of kvs (units ''legalDisclaimer'')"
    by (simp_all add: map_of_append_Some)
  with assms show ?thesis unfolding offerCopySchema_def by simp
qed


section \<open>The two replacements and the trim\<close>

lemma fence_eq: "fence = [0x60, 0x60, 0x60]"
  by (simp add: fence_def units_def)

lemma tick_no_space: "\<not> is_space 0x60"
  by (simp add: is_space_def)

lemma canonicalize_tick: "canonicalize c = 0x60 \<longleftrightarrow> c = 0x60"
proof
  assume h: "canonicalize c = 0x60"
  show "c = 0x60"
  proof (cases "0x61 \<le> c \<and> c \<le> 0x7A")
    case True
    with h have "c - 0x20 = 0x60" by (simp add: canonicalize_def)
    then have "c = 0x80" by (simp add: diff_eq_eq)
    with True show ?thesis by simp
  next
    case False
    with h show ?thesis by (simp add: canonicalize_def)
  qed
next
  assume "c = 0x60" then show "canonicalize c = 0x60" by (simp add: canonicalize_def)
qed

lemma space_not_letter: "is_space c \<Longrightarrow> canonicalize c = c"
  unfolding is_space_def canonicalize_def
  by (auto simp: word_le_nat_alt)

lemma space_not_j: "is_space c \<Longrightarrow> canonicalize c \<noteq> canonicalize 0x6A"
  using space_not_letter[of c] by (auto simp: canonicalize_def is_space_def)


lemma strip_prefix_iff: "strip_prefix p x = Some r \<longleftrightarrow> x = p @ r"
  by (induction p x rule: strip_prefix.induct) auto

lemma strip_prefix_ci_same:
  "map canonicalize q = map canonicalize p \<Longrightarrow> strip_prefix_ci p (q @ x) = Some x"
proof (induction p arbitrary: q)
  case Nil
  then show ?case by simp
next
  case (Cons a p)
  then obtain b q' where "q = b # q'" by (cases q) auto
  with Cons show ?case by simp
qed

lemma strip_prefix_ci_fence: "strip_prefix_ci fence x = strip_prefix fence x"
proof -
  have "strip_prefix_ci (replicate n 0x60) x = strip_prefix (replicate n 0x60) x" for n
  proof (induction n arbitrary: x)
    case 0
    then show ?case by simp
  next
    case (Suc n)
    have c: "canonicalize 0x60 = (0x60 :: 16 word)" by (simp add: canonicalize_def)
    show ?case using Suc by (cases x) (simp_all add: c canonicalize_tick)
  qed
  from this[of 3] show ?thesis by (simp add: fence_eq numeral_3_eq_3)
qed

lemma dropWhile_all: "list_all P a \<Longrightarrow> dropWhile P (a @ x) = dropWhile P x"
  by (induction a) auto

lemma strip_prefix_ci_json_space:
  assumes "list_all is_space a" "a \<noteq> []"
  shows "strip_prefix_ci (units ''json'') (a @ x) = None"
proof -
  from assms obtain c a' where a: "a = c # a'" "is_space c" by (cases a) auto
  then show ?thesis using space_not_j[of c] by (simp add: units_def)
qed

lemma replace_open_unfenced: "\<not> fenced_open t \<Longrightarrow> replace_open t = t"
  unfolding fenced_open_def replace_open_def strip_prefix_ci_fence by simp

subsection \<open>The closing fence\<close>

lemma rtrim_Cons:
  "rtrim (x # s) = (if list_all is_space (x # s) then [] else x # rtrim s)"
proof (cases "list_all is_space s")
  case True
  then have "dropWhile is_space (rev s) = []" by (simp add: list_all_iff)
  moreover from True have "dropWhile is_space (rev s @ [x]) = dropWhile is_space [x]"
    by (intro dropWhile_all) (simp add: list_all_iff)
  ultimately show ?thesis using True by (simp add: rtrim_def)
next
  case False
  then obtain y where "y \<in> set (rev s)" "\<not> is_space y" by (auto simp: list_all_iff)
  then have "dropWhile is_space (rev s @ [x]) = dropWhile is_space (rev s) @ [x]"
    by (simp add: dropWhile_append1)
  with False show ?thesis by (simp add: rtrim_def)
qed

lemma closes_replace: "closes l \<Longrightarrow> replace_close l = []"
  by (cases l) simp_all

lemma closes_all_space:
  assumes "list_all is_space s" "list_all is_space c"
  shows "closes (s @ fence @ c)"
proof -
  have "dropWhile is_space (s @ fence @ c) = fence @ c"
    using dropWhile_all[OF assms(1)] by (simp add: fence_eq tick_no_space)
  then show ?thesis using assms(2) by (simp add: closes_def strip_prefix_iff[THEN iffD2])
qed


lemma closes_not_all_space:
  assumes s: "\<not> list_all is_space s" and w: "list_all is_space w"
  shows "\<not> closes (s @ w @ fence @ c)"
proof
  assume cl: "closes (s @ w @ fence @ c)"
  from s obtain y where y: "y \<in> set s" "\<not> is_space y" by (auto simp: list_all_iff)
  define u where "u = dropWhile is_space s @ w"
  from y have d: "dropWhile is_space (s @ w @ fence @ c) = u @ fence @ c"
    by (simp add: dropWhile_append1 u_def)
  from y have "dropWhile is_space s \<noteq> []" by (auto simp: dropWhile_eq_Nil_conv)
  then have u1: "1 \<le> length u" unfolding u_def by (cases "dropWhile is_space s") auto
  from cl d obtain rem where e: "u @ fence @ c = fence @ rem" and sp: "list_all is_space rem"
    unfolding closes_def by (auto split: option.splits simp: strip_prefix_iff)
  from e have "length (u @ fence @ c) = length (fence @ rem)" by simp
  then have "length rem = length u + length c" by simp
  with u1 have i: "length u - 1 < length rem" by simp
  have "(u @ fence @ c) ! (length u + 2) = 0x60"
    by (simp add: nth_append fence_eq)
  moreover have "(fence @ rem) ! (length u + 2) = rem ! (length u - 1)"
    using u1 by (cases "length u") (simp_all add: nth_append fence_eq)
  ultimately have "rem ! (length u - 1) = 0x60" using e by simp
  with i have "0x60 \<in> set rem" by (metis nth_mem)
  with sp tick_no_space show False by (auto simp: list_all_iff)
qed

lemma replace_close_wrapped:
  assumes w: "list_all is_space w" and c: "list_all is_space c"
  shows "replace_close (s @ w @ fence @ c) = rtrim s"
proof (induction s)
  case Nil
  have "closes (w @ fence @ c)" by (rule closes_all_space[OF w c])
  then show ?case by (simp add: closes_replace rtrim_def)
next
  case (Cons x s)
  show ?case
  proof (cases "list_all is_space (x # s)")
    case True
    then have "list_all is_space ((x # s) @ w)" using w by simp
    from closes_all_space[OF this c] have "closes ((x # s) @ w @ fence @ c)" by simp
    then show ?thesis using True by (simp add: closes_replace rtrim_Cons)
  next
    case False
    from closes_not_all_space[OF False w] have "\<not> closes ((x # s) @ w @ fence @ c)" .
    then show ?thesis using False Cons by (simp add: rtrim_Cons) 
  qed
qed

lemma rev_fence: "rev fence = fence"
  by (simp add: fence_eq)

lemma closes_fenced_close:
  assumes "closes l"
  shows "fenced_close (p @ l)"
proof -
  define w where "w = takeWhile is_space l"
  from assms obtain rem where r: "dropWhile is_space l = fence @ rem" and sp: "list_all is_space rem"
    unfolding closes_def by (auto split: option.splits simp: strip_prefix_iff)
  have "l = takeWhile is_space l @ dropWhile is_space l" by simp
  then have "l = w @ fence @ rem" unfolding w_def r .
  then have "rev (p @ l) = rev rem @ (fence @ rev w @ rev p)" by (simp add: rev_fence)
  moreover have "list_all is_space (rev rem)" using sp by (simp add: list_all_iff)
  ultimately have "dropWhile is_space (rev (p @ l)) = dropWhile is_space (fence @ rev w @ rev p)"
    by (simp only: dropWhile_all)
  also have "\<dots> = fence @ rev w @ rev p" by (simp add: fence_eq tick_no_space)
  finally show ?thesis unfolding fenced_close_def rev_fence
    by (simp add: strip_prefix_iff[THEN iffD2])
qed

lemma replace_close_id:
  "(\<And>p l. t = p @ l \<Longrightarrow> \<not> closes l) \<Longrightarrow> replace_close t = t"
proof (induction t)
  case Nil
  then show ?case by simp
next
  case (Cons x t)
  have "\<not> closes (x # t)" using Cons.prems[of "[]" "x # t"] by simp
  moreover have "replace_close t = t"
  proof (rule Cons.IH)
    fix p l assume "t = p @ l"
    then have "x # t = (x # p) @ l" by simp
    then show "\<not> closes l" by (rule Cons.prems)
  qed
  ultimately show ?case by simp
qed

lemma replace_close_unfenced: "\<not> fenced_close t \<Longrightarrow> replace_close t = t"
  using closes_fenced_close by (intro replace_close_id) blast

subsection \<open>Trimming\<close>

lemma trim_rtrim: "trim s = rtrim (dropWhile is_space s)"
  by (simp add: trim_def rtrim_def)

lemma rtrim_idem: "rtrim (rtrim s) = rtrim s"
  by (simp add: rtrim_def)

lemma ltrim_rtrim_ltrim:
  "dropWhile is_space (rtrim (dropWhile is_space t)) = rtrim (dropWhile is_space t)"
proof (cases "dropWhile is_space t")
  case Nil
  show ?thesis unfolding Nil by (simp add: rtrim_def)
next
  case (Cons x xs)
  with hd_dropWhile[of is_space t] have "\<not> is_space x" by simp
  then show ?thesis unfolding Cons by (simp add: rtrim_Cons)
qed

lemma trim_trim: "trim (trim t) = trim t"
  by (simp add: trim_rtrim ltrim_rtrim_ltrim rtrim_idem)

lemma dropWhile_text_then_space:
  assumes b: "list_all is_space b"
  shows "\<exists>b'. list_all is_space b' \<and>
           dropWhile is_space (t @ b @ fence @ c) = dropWhile is_space t @ b' @ fence @ c"
proof (cases "list_all is_space t")
  case True
  then have "dropWhile is_space (t @ b @ fence @ c) = dropWhile is_space (fence @ c)"
    using b by (simp add: dropWhile_all)
  also have "\<dots> = fence @ c" by (simp add: fence_eq tick_no_space)
  finally have "dropWhile is_space (t @ b @ fence @ c) = dropWhile is_space t @ [] @ fence @ c"
    using True by (simp add: list_all_iff)
  then show ?thesis by (intro exI[of _ "[]"]) simp
next
  case False
  then obtain y where "y \<in> set t" "\<not> is_space y" by (auto simp: list_all_iff)
  then have "dropWhile is_space (t @ b @ fence @ c) = dropWhile is_space t @ b @ fence @ c"
    by (simp add: dropWhile_append1)
  with b show ?thesis by blast
qed

lemma cleaned_unfenced:
  "\<not> fenced_open t \<Longrightarrow> \<not> fenced_close t \<Longrightarrow> cleaned t = trim t"
  by (simp add: cleaned_def replace_open_unfenced replace_close_unfenced)

lemma decode_depends_on_cleaned:
  assumes "cleaned x = cleaned y"
  shows "(decode sv offer x = Inr r \<longleftrightarrow> decode sv offer y = Inr r) \<and>
         (isl (decode sv offer x) \<longleftrightarrow> isl (decode sv offer y))"
  using assms unfolding decode_def by (auto split: option.splits)

subsection \<open>Texts in a fenced block\<close>

lemma canonicalize_space_tick:
  "is_space x \<or> x = 0x60 \<Longrightarrow> canonicalize x \<notin> canonicalize ` set (units ''json'')"
proof -
  assume h: "is_space x \<or> x = 0x60"
  then have "canonicalize x = x"
    using space_not_letter[of x] by (auto simp: canonicalize_def)
  moreover have "canonicalize ` set (units ''json'') = {0x4A, 0x53, 0x4F, 0x4E}"
    by (auto simp: units_def canonicalize_def)
  moreover have "x \<noteq> 0x4A" "x \<noteq> 0x53" "x \<noteq> 0x4F" "x \<noteq> 0x4E"
    using h by (auto simp: is_space_def)
  ultimately show ?thesis by simp
qed

lemma strip_prefix_ci_append_None:
  assumes "strip_prefix_ci p t = None" and "canonicalize x \<notin> canonicalize ` set p"
  shows "strip_prefix_ci p (t @ x # r) = None"
  using assms
proof (induction p t rule: strip_prefix_ci.induct)
  case (1 s)
  then show ?case by simp
next
  case (2 p ps)
  then show ?case by auto
next
  case (3 p ps c cs)
  then show ?case by (auto split: if_splits)
qed

lemma not_begins_json_append:
  assumes "\<not> begins_json t" and b: "list_all is_space b"
  shows "strip_prefix_ci (units ''json'') (t @ b @ fence @ c) = None"
proof -
  obtain x r where xr: "b @ fence @ c = x # r" "is_space x \<or> x = 0x60"
    using b by (cases b) (auto simp: fence_eq)
  from assms(1) have "strip_prefix_ci (units ''json'') t = None" by (simp add: begins_json_def)
  from strip_prefix_ci_append_None[OF this canonicalize_space_tick[OF xr(2)], of r] xr(1)
  show ?thesis by simp
qed

lemma replace_open_fence:
  assumes tag: "is_json_tag tag" and a: "list_all is_space a"
    and ne: "tag = [] \<and> a = [] \<longrightarrow> strip_prefix_ci (units ''json'') x = None"
  shows "replace_open (fence @ tag @ a @ x) = dropWhile is_space x"
proof -
  have f: "strip_prefix_ci fence (fence @ tag @ a @ x) = Some (tag @ a @ x)"
    by (rule strip_prefix_ci_same) simp
  show ?thesis
  proof (cases "tag = []")
    case True
    have "strip_prefix_ci (units ''json'') (a @ x) = None"
    proof (cases "a = []")
      case True
      with ne \<open>tag = []\<close> show ?thesis by simp
    next
      case False
      from strip_prefix_ci_json_space[OF a False] show ?thesis .
    qed
    with True f show ?thesis
      by (simp add: replace_open_def dropWhile_all[OF a])
  next
    case False
    with tag have "map canonicalize tag = map canonicalize (units ''json'')"
      unfolding is_json_tag_def by simp
    from strip_prefix_ci_same[OF this] f show ?thesis
      by (simp add: replace_open_def dropWhile_all[OF a])
  qed
qed

lemma cleaned_wrap_glued:
  assumes tag: "is_json_tag tag" and a: "list_all is_space a"
    and b: "list_all is_space b" and c: "list_all is_space c"
    and ne: "tag = [] \<and> a = [] \<longrightarrow> \<not> begins_json t"
  shows "cleaned (wrap tag a t b c) = trim t"
proof -
  have "tag = [] \<and> a = [] \<longrightarrow> strip_prefix_ci (units ''json'') (t @ b @ fence @ c) = None"
    using ne not_begins_json_append[OF _ b] by blast
  from replace_open_fence[OF tag a this]
  have "replace_open (wrap tag a t b c) = dropWhile is_space (t @ b @ fence @ c)"
    unfolding wrap_def .
  moreover from dropWhile_text_then_space[OF b] obtain b' where
    b': "list_all is_space b'"
    "dropWhile is_space (t @ b @ fence @ c) = dropWhile is_space t @ b' @ fence @ c" by blast
  ultimately have "replace_close (replace_open (wrap tag a t b c)) = rtrim (dropWhile is_space t)"
    using replace_close_wrapped[OF b'(1) c] by simp
  then show ?thesis unfolding cleaned_def by (simp add: trim_rtrim[symmetric] trim_trim)
qed

lemma fenced_close_append:
  assumes "fenced_close l"
  shows "fenced_close (p @ l)"
proof -
  from assms obtain r where "strip_prefix fence (dropWhile is_space (rev l)) = Some r"
    unfolding fenced_close_def rev_fence by blast
  then have r: "dropWhile is_space (rev l) = fence @ r" by (simp only: strip_prefix_iff)
  then have "dropWhile is_space (rev l) \<noteq> []" by (simp add: fence_eq)
  then obtain y where "y \<in> set (rev l)" "\<not> is_space y"
    by (auto simp: dropWhile_eq_Nil_conv)
  then have "dropWhile is_space (rev l @ rev p) = dropWhile is_space (rev l) @ rev p"
    by (simp add: dropWhile_append1)
  with r show ?thesis unfolding fenced_close_def rev_fence
    by (simp add: strip_prefix_iff[THEN iffD2])
qed

lemma trim_ltrim: "trim (dropWhile is_space t) = trim t"
  by (simp add: trim_def)

lemma cleaned_open_only:
  assumes tag: "is_json_tag tag" and a: "list_all is_space a"
    and ne: "tag = [] \<and> a = [] \<longrightarrow> \<not> begins_json t"
    and nc: "\<not> fenced_close (fence @ tag @ a @ t)"
  shows "cleaned (fence @ tag @ a @ t) = trim t"
proof -
  have "tag = [] \<and> a = [] \<longrightarrow> strip_prefix_ci (units ''json'') t = None"
    using ne by (simp add: begins_json_def)
  from replace_open_fence[OF tag a this]
  have o: "replace_open (fence @ tag @ a @ t) = dropWhile is_space t" .
  have "\<not> fenced_close (dropWhile is_space t)"
  proof
    assume "fenced_close (dropWhile is_space t)"
    from fenced_close_append[OF this, of "fence @ tag @ a @ takeWhile is_space t"]
    have "fenced_close (fence @ tag @ a @ t)" by simp
    with nc show False ..
  qed
  from replace_close_unfenced[OF this] o show ?thesis
    unfolding cleaned_def by (simp add: trim_ltrim)
qed

lemma ltrim_rtrim: "dropWhile is_space (rtrim t) = rtrim (dropWhile is_space t)"
proof (induction t)
  case Nil
  then show ?case by (simp add: rtrim_def)
next
  case (Cons y t)
  show ?case
  proof (cases "list_all is_space (y # t)")
    case True
    then have d: "dropWhile is_space (y # t) = []" by (simp add: list_all_iff)
    have e: "rtrim [] = []" by (simp add: rtrim_def)
    have "rtrim (y # t) = []" using True by (simp only: rtrim_Cons if_True)
    then show ?thesis unfolding d e by simp
  next
    case False
    show ?thesis
    proof (cases "is_space y")
      case True
      with False Cons show ?thesis by (simp add: rtrim_Cons)
    next
      case ny: False
      with False show ?thesis by (simp add: rtrim_Cons)
    qed
  qed
qed

lemma trim_rtrim_arg: "trim (rtrim t) = trim t"
  by (simp add: trim_rtrim ltrim_rtrim rtrim_idem)

lemma cleaned_close_only:
  assumes b: "list_all is_space b" and c: "list_all is_space c"
    and no: "\<not> fenced_open (t @ b @ fence @ c)"
  shows "cleaned (t @ b @ fence @ c) = trim t"
  unfolding cleaned_def replace_open_unfenced[OF no] replace_close_wrapped[OF b c]
  by (rule trim_rtrim_arg)

lemma decode_by_cleaned:
  "decode sv offer x = Inr r \<longleftrightarrow>
     (\<exists>parsed. JSON_parse sv (cleaned x) = Some parsed \<and> offerCopySchema parsed = Some r)"
  unfolding decode_def by (auto split: option.splits)

section \<open>The sample inputs evaluated\<close>

lemma body_two_offers:
  "offerRequestBodySchema (body_of [item_shoes, item_late]) = Some [offer_shoes, offer_late]"
  by code_simp

lemma processOffer_late: "processOffer service_late offer_late = Inl (Error (units ''timeout''))"
  by code_simp

lemma processOffer_shoes: "processOffer service_late offer_shoes = Inr result_shoes"
  by code_simp

lemma run_late:
  "mapWithConcurrency [offer_shoes, offer_late] BATCH_CONCURRENCY
     (\<lambda>offer i. processOffer service_late offer) [0, 1] = Some pool_late"
  by (simp add: mapWithConcurrency_def start_def fresh_def worker_def resume_def
      BATCH_CONCURRENCY_def numeral_2_eq_2 processOffer_late processOffer_shoes pool_late_def)

lemma promise_all_late: "promise_all pool_late = Some (Inl (Error (units ''timeout'')))"
  by (simp add: promise_all_def pool_late_def)

lemma item_shoes_in_bounds: "item_in_bounds item_shoes"
  by code_simp

lemma items_shoes_in_bounds: "list_all item_in_bounds (replicate n item_shoes)"
  by (simp add: list_all_iff item_shoes_in_bounds)


section \<open>The scheduler's properties\<close>

text \<open>
  Claim C1, as the code has it. Let the cap be at least 1 and let \<open>fn\<close> succeed on
  every item. Then, whatever the order in which the calls complete: as long as the
  scheduler has not returned, fewer than \<open>N\<close> calls have completed and a call is in
  flight, whose completion continues the run; and when it returns, after exactly \<open>N\<close>
  completions, every worker has left its loop and the result is a sequence of \<open>N\<close>
  values whose \<open>i\<close>-th is what \<open>fn\<close> returned for \<open>items[i]\<close> and \<open>i\<close>.
\<close>

theorem mapWithConcurrency_all_succeed:
  assumes K: "1 \<le> K"
    and ok: "\<forall>i<length items. \<not> isl (fn (items ! i) i)"
    and r: "mapWithConcurrency items K fn sched = Some s"
  shows "(promise_all s = None \<longrightarrow>
            length sched < length items \<and>
            (\<exists>w<length (workers s). awaiting (workers s ! w) \<and>
               mapWithConcurrency items K fn (sched @ [w]) = Some (resume fn items w s)))
       \<and> (\<forall>out. promise_all s = Some out \<longrightarrow>
            length sched = length items \<and> list_all (\<lambda>w. w = Exited) (workers s) \<and>
            (\<exists>rs. out = Inr rs \<and> length rs = length items \<and>
               (\<forall>i<length items. \<exists>v. rs ! i = Some v \<and> fn (items ! i) i = Inr v)))"
proof (intro conjI impI allI)
  note I = inv_mapWithConcurrency[OF r]
  assume p: "promise_all s = None"
  from pending_has_awaiting[OF I p]
  obtain w where w: "w < length (workers s)" "awaiting (workers s ! w)" by blast
  with run_extend[OF r w]
  show "\<exists>w<length (workers s). awaiting (workers s ! w) \<and>
          mapWithConcurrency items K fn (sched @ [w]) = Some (resume fn items w s)" by blast
  from w have "0 < in_flight s" using in_flight_pos by blast
  with counted_mapWithConcurrency[OF r] have "length sched < nextIndex s" by simp
  with I show "length sched < length items" unfolding pool_inv_def by simp
next
  fix out assume p: "promise_all s = Some out"
  have "\<exists>rs. out = Inr rs"
  proof (cases out)
    case (Inl e)
    with rejected_is_failure[OF r] p ok show ?thesis by fastforce
  next
    case (Inr rs) then show ?thesis by simp
  qed
  then obtain rs where o: "out = Inr rs" by blast
  from fulfilled_complete[OF r K p[unfolded o]] o
  show "length sched = length items" "list_all (\<lambda>w. w = Exited) (workers s)"
   "\<exists>rs. out = Inr rs \<and> length rs = length items \<and>
               (\<forall>i<length items. \<exists>v. rs ! i = Some v \<and> fn (items ! i) i = Inr v)"
    by simp_all
qed

theorem mapWithConcurrency_all_succeed_witness:
  "mapWithConcurrency [10, 20, 30] 2 task_ok [1, 0, 1] = Some pool_done \<and>
   promise_all pool_done = Some (Inr [Some 10, Some 21, Some 32]) \<and>
   length [1, 0, 1 :: nat] = length [10, 20, 30 :: nat] \<and>
   list_all (\<lambda>w. w = Exited) (workers pool_done)"
proof -
  have K: "(1::int) \<le> 2" by simp
  have ok: "\<forall>i<length [10, 20, 30 :: nat]. \<not> isl (task_ok ([10, 20, 30] ! i) i)"
    by (simp add: task_ok_def)
  have r: "mapWithConcurrency [10, 20, 30] 2 task_ok [1, 0, 1] = Some pool_done"
    by (simp add: mapWithConcurrency_def start_def fresh_def worker_def resume_def
        task_ok_def pool_done_def numeral_2_eq_2)
  have p: "promise_all pool_done = Some (Inr [Some 10, Some 21, Some 32])"
    by (simp add: promise_all_def pool_done_def)
  from mapWithConcurrency_all_succeed[OF K ok r] p r show ?thesis by simp
qed

text \<open>
  The claim as it is written speaks of every task function. With two items, cap 2 and
  a task that fails on index 0, the scheduler's result after the first completion is
  the failure, not two results, and the worker of index 1 has not left its loop.
\<close>

theorem mapWithConcurrency_failure_counterexample:
  "mapWithConcurrency [10, 20] 2 task_fail_first [0] = Some pool_failed \<and>
   promise_all pool_failed = Some (Inl ''boom'') \<and>
   workers pool_failed ! 1 = Awaiting 1"
  by (simp add: mapWithConcurrency_def start_def fresh_def worker_def resume_def
      task_fail_first_def pool_failed_def promise_all_def numeral_2_eq_2)

text \<open>
  Claim C3. The cap is a number of tasks, so it is not negative. In every state of a
  run the number of calls of \<open>fn\<close> in flight is at most \<open>min(K, N)\<close>, and so it is
  while the workers are being launched one after the other.
\<close>

theorem in_flight_bounded:
  fixes s :: "('e, 'r) pool"
  assumes K: "0 \<le> K" and r: "mapWithConcurrency items K fn sched = Some s"
  shows "int (in_flight s) \<le> min K (int (length items)) \<and>
         (\<forall>k\<le>nat (min K (int (length items))).
            int (in_flight (launch (length items) k (fresh (length items) :: ('e, 'r) pool)))
              \<le> min K (int (length items)))"
proof
  have "in_flight s \<le> length (workers s)" unfolding in_flight_def by simp
  with length_workers_mapWithConcurrency[OF r]
  have "int (in_flight s) \<le> int (nat (min K (int (length items))))" by linarith
  also have "\<dots> = min K (int (length items))" using K by simp
  finally show "int (in_flight s) \<le> min K (int (length items))" .
next
  show "\<forall>k\<le>nat (min K (int (length items))).
            int (in_flight (launch (length items) k (fresh (length items) :: ('e, 'r) pool)))
              \<le> min K (int (length items))"
  proof (intro allI impI)
    fix k assume k: "k \<le> nat (min K (int (length items)))"
    have "in_flight (fresh (length items) :: ('e, 'r) pool) = 0"
      by (simp add: in_flight_def fresh_def)
    with in_flight_launch[of "length items" k "fresh (length items) :: ('e, 'r) pool"]
    have "in_flight (launch (length items) k (fresh (length items) :: ('e, 'r) pool)) \<le> k"
      by simp
    with k K
    show "int (in_flight (launch (length items) k (fresh (length items) :: ('e, 'r) pool)))
              \<le> min K (int (length items))" by linarith
  qed
qed

theorem in_flight_bounded_witness:
  "mapWithConcurrency [10, 20, 30] 2 task_ok [1, 0] = Some pool_last_call \<and>
   in_flight pool_last_call = 1 \<and>
   int (in_flight pool_last_call) \<le> min 2 (int (length [10, 20, 30 :: nat]))"
proof -
  have K: "(0::int) \<le> 2" by simp
  have r: "mapWithConcurrency [10, 20, 30] 2 task_ok [1, 0] = Some pool_last_call"
    by (simp add: mapWithConcurrency_def start_def fresh_def worker_def resume_def
        task_ok_def pool_last_call_def numeral_2_eq_2)
  have "in_flight pool_last_call = 1" by (simp add: in_flight_def pool_last_call_def)
  with in_flight_bounded[OF K r] r show ?thesis by simp
qed

text \<open>
  Claim C10. With a cap of zero or less no worker is launched: the state at
  \<open>await Promise.all(workers)\<close> is the fresh one, with no worker, no call of \<open>fn\<close> and
  every slot a hole; \<open>Promise.all\<close> of no promise is fulfilled, so the scheduler returns
  that array of \<open>N\<close> holes; and no run has a step, since there is no call to complete.
\<close>

theorem mapWithConcurrency_nonpositive_cap:
  assumes K: "K \<le> 0"
  shows "(start (length items) K :: ('e, 'r) pool) = fresh (length items) \<and>
         workers (start (length items) K :: ('e, 'r) pool) = [] \<and>
         calls (start (length items) K :: ('e, 'r) pool) = [] \<and>
         promise_all (start (length items) K :: ('e, 'r) pool)
           = Some (Inr (replicate (length items) None)) \<and>
         (\<forall>sched. mapWithConcurrency items K (fn :: 'a \<Rightarrow> nat \<Rightarrow> 'e + 'r) sched \<noteq> None
            \<longrightarrow> sched = [])"
proof -
  have n: "nat (min K (int (length items))) = 0" using K by simp
  have s: "(start (length items) K :: ('e, 'r) pool) = fresh (length items)"
    unfolding start_def n by simp
  have "sched = []" if "mapWithConcurrency items K fn sched \<noteq> None" for sched
    using that unfolding mapWithConcurrency_def s by (cases sched) (simp_all add: fresh_def)
  then show ?thesis unfolding s by (simp add: fresh_def promise_all_def)
qed

theorem mapWithConcurrency_nonpositive_cap_witness:
  "promise_all (start (length [10, 20, 30 :: nat]) (- 1) :: (string, nat) pool)
     = Some (Inr (replicate (length [10, 20, 30 :: nat]) None)) \<and>
   calls (start (length [10, 20, 30 :: nat]) (- 1) :: (string, nat) pool) = [] \<and>
   mapWithConcurrency [10, 20, 30] (- 1) task_ok [0] = None"
proof -
  have K: "(- 1 :: int) \<le> 0" by simp
  have n: "mapWithConcurrency [10, 20, 30] (- 1) task_ok [0] = None"
    by (simp add: mapWithConcurrency_def start_def fresh_def)
  from mapWithConcurrency_nonpositive_cap[OF K, of "[10, 20, 30 :: nat]" task_ok]
  have "promise_all (start (length [10, 20, 30 :: nat]) (- 1) :: (string, nat) pool)
     = Some (Inr (replicate (length [10, 20, 30 :: nat]) None))"
    and "calls (start (length [10, 20, 30 :: nat]) (- 1) :: (string, nat) pool) = []"
    by blast+
  with n show ?thesis by blast
qed


section \<open>The batch as a whole\<close>

text \<open>
  Claim C2. Let the cap be at least 1 and let \<open>fn\<close> fail on some item. Whatever the
  order of completion: a run has at most \<open>N\<close> completions; while the scheduler is
  pending a call is in flight, whose completion continues the run; as soon as a worker
  has thrown the scheduler is settled;
  and whenever it is settled its result is a failure that \<open>fn\<close> produced on one of the
  items it was called on, never a sequence of results. For the route: when
  \<open>processOffer\<close> fails on one offer of a valid body, the response is the one built from
  such a failure, and it is not the 200 response that carries results.
\<close>

theorem failure_fails_whole_batch:
  fixes s :: "('e, 'r) pool"
  shows "(1 \<le> K \<and> (\<exists>i<length items. isl (fn (items ! i) i)) \<and>
          mapWithConcurrency items K fn sched = Some s \<longrightarrow>
            length sched \<le> length items \<and>
            (promise_all s = None \<longrightarrow>
               (\<exists>w<length (workers s). awaiting (workers s ! w) \<and>
                  mapWithConcurrency items K fn (sched @ [w]) = Some (resume fn items w s))) \<and>
            (list_ex threw (workers s) \<longrightarrow> promise_all s \<noteq> None) \<and>
            (\<forall>out. promise_all s = Some out \<longrightarrow>
               (\<exists>e j. out = Inl e \<and> j < length items \<and> j \<in> set (calls s) \<and>
                      fn (items ! j) j = Inl e)))
       \<and> ((\<exists>i<length offers. isl (processOffer sv (offers ! i))) \<and>
          offerRequestBodySchema reqBody = Some offers \<and>
          generate sv batchMs reqBody sched = Some (resp, invoked) \<longrightarrow>
            (\<exists>e j. j < length offers \<and> processOffer sv (offers ! j) = Inl e \<and>
                   resp = respond batchMs (Inl e)) \<and>
            (\<forall>rs t. resp \<noteq> Ok200 rs t))"
proof (intro conjI impI; (elim conjE)?)
  assume K: "1 \<le> K" and bad: "\<exists>i<length items. isl (fn (items ! i) i)"
    and r: "mapWithConcurrency items K fn sched = Some s"
  show "length sched \<le> length items" by (rule length_sched_le[OF r])
  show "\<exists>w<length (workers s). awaiting (workers s ! w) \<and>
          mapWithConcurrency items K fn (sched @ [w]) = Some (resume fn items w s)"
    if "promise_all s = None"
  proof -
    from pending_has_awaiting[OF inv_mapWithConcurrency[OF r] that]
    obtain w where w: "w < length (workers s)" "awaiting (workers s ! w)" by blast
    with run_extend[OF r w] show ?thesis by blast
  qed
  show "promise_all s \<noteq> None" if "list_ex threw (workers s)"
    using threw_rejects[OF r that] by auto
  show "\<forall>out. promise_all s = Some out \<longrightarrow>
               (\<exists>e j. out = Inl e \<and> j < length items \<and> j \<in> set (calls s) \<and>
                      fn (items ! j) j = Inl e)"
    using settled_with_failing_task[OF r K bad] by blast
next
  assume bad: "\<exists>i<length offers. isl (processOffer sv (offers ! i))"
    and v: "offerRequestBodySchema reqBody = Some offers"
    and g: "generate sv batchMs reqBody sched = Some (resp, invoked)"
  from g v obtain p out where
    r: "mapWithConcurrency offers BATCH_CONCURRENCY (\<lambda>offer i. processOffer sv offer) sched = Some p"
    and o: "promise_all p = Some out" and resp: "resp = respond batchMs out"
    unfolding generate_def by (auto split: option.splits)
  have K: "1 \<le> BATCH_CONCURRENCY" by (simp add: BATCH_CONCURRENCY_def)
  from settled_with_failing_task[OF r K bad o] obtain e j where
    e: "out = Inl e" "j < length offers" "processOffer sv (offers ! j) = Inl e" by blast
  with resp show "\<exists>e j. j < length offers \<and> processOffer sv (offers ! j) = Inl e \<and>
                   resp = respond batchMs (Inl e)" by blast
  from resp e(1) show "\<forall>rs t. resp \<noteq> Ok200 rs t" by (simp add: respond_failure)
qed

theorem failure_fails_whole_batch_witness:
  "mapWithConcurrency [offer_shoes, offer_late] BATCH_CONCURRENCY
     (\<lambda>offer i. processOffer service_late offer) [0, 1] = Some pool_late \<and>
   results pool_late = [Some result_shoes, None] \<and>
   promise_all pool_late = Some (Inl (Error (units ''timeout''))) \<and>
   generate service_late 9 (body_of [item_shoes, item_late]) [0, 1]
     = Some (Failed500 (MessageOf (Error (units ''timeout''))), [0, 1])"
proof -
  let ?fn = "\<lambda>offer (i::nat). processOffer service_late offer"
  let ?offers = "[offer_shoes, offer_late]"
  have K: "1 \<le> BATCH_CONCURRENCY" by (simp add: BATCH_CONCURRENCY_def)
  have "1 < length ?offers \<and> isl (?fn (?offers ! 1) 1)" by (simp add: processOffer_late)
  then have bad: "\<exists>i<length ?offers. isl (?fn (?offers ! i) i)" by blast
  have g: "generate service_late 9 (body_of [item_shoes, item_late]) [0, 1]
     = Some (Failed500 (MessageOf (Error (units ''timeout''))), [0, 1])"
    unfolding generate_def body_two_offers option.case run_late promise_all_late
    by (simp add: respond_def pool_late_def)
  from failure_fails_whole_batch[of BATCH_CONCURRENCY ?offers ?fn "[0, 1]" pool_late
      ?offers service_late "body_of [item_shoes, item_late]" 9
      "Failed500 (MessageOf (Error (units ''timeout'')))" "[0, 1]"]
    K bad run_late body_two_offers g
  have "\<forall>rs t. Failed500 (MessageOf (Error (units ''timeout''))) \<noteq> Ok200 rs t" by blast
  with run_late promise_all_late g show ?thesis by (simp add: pool_late_def)
qed

text \<open>
  Claim C5. The request schema accepts a body exactly when it has the batch shape: an
  \<open>offers\<close> array of 1 to 50 items, each with an \<open>offerType\<close> among the 8 tags, an
  \<open>offerDescription\<close> of 1 to 2000 code units and an \<open>existingCopy\<close> that is absent or
  of at most 5000 code units. For a body without that shape the handler answers
  \<open>bad_request:api\<close> whatever the services and the run are, and \<open>processOffer\<close> has
  been called on no offer. A batch of items within their bounds has the shape exactly
  when it has 1 to 50 items.
\<close>

theorem batch_shape_first:
  "(offerRequestBodySchema reqBody \<noteq> None \<longleftrightarrow> batch_shape reqBody) \<and>
   (\<not> batch_shape reqBody \<longrightarrow>
      generate sv batchMs reqBody sched = Some (ErrorResponse (units ''bad_request:api''), [])) \<and>
   (list_all item_in_bounds xs \<longrightarrow>
      (batch_shape (JObject [(units ''offers'', JArray xs)]) \<longleftrightarrow> 1 \<le> length xs \<and> length xs \<le> 50)) \<and>
   length OFFER_TYPES = 8 \<and> distinct OFFER_TYPES"
proof (intro conjI impI)
  show "offerRequestBodySchema reqBody \<noteq> None \<longleftrightarrow> batch_shape reqBody"
    by (rule offerRequestBodySchema_iff)
  show "generate sv batchMs reqBody sched = Some (ErrorResponse (units ''bad_request:api''), [])"
    if "\<not> batch_shape reqBody"
    using that offerRequestBodySchema_iff[of reqBody] by (auto simp add: generate_def)
  show "batch_shape (JObject [(units ''offers'', JArray xs)]) \<longleftrightarrow> 1 \<le> length xs \<and> length xs \<le> 50"
    if "list_all item_in_bounds xs"
    using batch_shape_body_of[OF that] by (simp add: body_of_def)
  show "length OFFER_TYPES = 8" "distinct OFFER_TYPES" using OFFER_TYPES_closed by simp_all
qed

theorem batch_shape_first_witness:
  "generate service_ok 9 (body_of (replicate 0 item_shoes)) [0]
     = Some (ErrorResponse (units ''bad_request:api''), []) \<and>
   generate service_ok 9 (body_of (replicate 51 item_shoes)) [0]
     = Some (ErrorResponse (units ''bad_request:api''), []) \<and>
   offerRequestBodySchema (body_of (replicate 1 item_shoes)) \<noteq> None \<and>
   offerRequestBodySchema (body_of (replicate 50 item_shoes)) \<noteq> None"
proof -
  from batch_shape_first[of "body_of (replicate 0 item_shoes)" service_ok 9 "[0]"
      "replicate 0 item_shoes", folded body_of_def] items_shoes_in_bounds[of 0]
  have a: "generate service_ok 9 (body_of (replicate 0 item_shoes)) [0]
     = Some (ErrorResponse (units ''bad_request:api''), [])" by simp
  from batch_shape_first[of "body_of (replicate 51 item_shoes)" service_ok 9 "[0]"
      "replicate 51 item_shoes", folded body_of_def] items_shoes_in_bounds[of 51]
  have b: "generate service_ok 9 (body_of (replicate 51 item_shoes)) [0]
     = Some (ErrorResponse (units ''bad_request:api''), [])" by simp
  from batch_shape_first[of "body_of (replicate 1 item_shoes)" service_ok 9 "[0]"
      "replicate 1 item_shoes", folded body_of_def] items_shoes_in_bounds[of 1]
  have c: "offerRequestBodySchema (body_of (replicate 1 item_shoes)) \<noteq> None" by simp
  from batch_shape_first[of "body_of (replicate 50 item_shoes)" service_ok 9 "[0]"
      "replicate 50 item_shoes", folded body_of_def] items_shoes_in_bounds[of 50]
  have d: "offerRequestBodySchema (body_of (replicate 50 item_shoes)) \<noteq> None" by simp
  from a b c d show ?thesis by blast
qed


section \<open>The decoder\<close>

text \<open>
  Claim C4, as the code has it. The output schema accepts a parsed document exactly
  when it is an object whose \<open>headline\<close>, \<open>body\<close> and \<open>callToAction\<close> are text and whose
  \<open>subheadline\<close> and \<open>legalDisclaimer\<close> are text or \<open>null\<close>; a field that is missing
  (a renamed field is a missing one) or of another type makes it reject. Fields beyond
  the five do not: a document that is accepted stays accepted, with the same record,
  when fields are added to it. When \<open>JSON.parse\<close> throws, the decoder throws an
  \<open>Error\<close> with the invalid-JSON message; when the schema rejects, a \<open>ZodError\<close>; the
  two are different.
\<close>

theorem offerCopySchema_accepts:
  "(offerCopySchema j \<noteq> None \<longleftrightarrow> copy_shape j) \<and>
   (offerCopySchema (JObject kvs) = Some r \<longrightarrow> offerCopySchema (JObject (kvs @ extra)) = Some r) \<and>
   (JSON_parse sv (cleaned txt) = None \<longrightarrow>
      decode sv offer txt = Inl (Error (invalid_json_message offer txt))) \<and>
   (JSON_parse sv (cleaned txt) = Some j \<longrightarrow>
      decode sv offer txt = (case offerCopySchema j of None \<Rightarrow> Inl ZodError | Some c \<Rightarrow> Inr c)) \<and>
   Error m \<noteq> ZodError"
  using offerCopySchema_iff offerCopySchema_extra by (simp add: decode_def)

theorem offerCopySchema_accepts_witness:
  "offerCopySchema copy_doc = Some copy_record \<and>
   offerCopySchema copy_doc_no_cta = None \<and>
   offerCopySchema copy_doc_sub_number = None \<and>
   decode service_ok offer_shoes (units ''Hello!'')
     = Inl (Error (invalid_json_message offer_shoes (units ''Hello!''))) \<and>
   decode service_ok offer_shoes copy_text = Inr copy_record \<and>
   decode (service_ok\<lparr>JSON_parse := (\<lambda>t. Some copy_doc_no_cta)\<rparr>) offer_shoes copy_text
     = Inl ZodError"
proof -
  have a: "offerCopySchema copy_doc = Some copy_record" by code_simp
  have "\<not> copy_shape copy_doc_no_cta" by code_simp
  with offerCopySchema_accepts[of copy_doc_no_cta]
  have b: "offerCopySchema copy_doc_no_cta = None" by blast
  have "\<not> copy_shape copy_doc_sub_number" by code_simp
  with offerCopySchema_accepts[of copy_doc_sub_number]
  have c: "offerCopySchema copy_doc_sub_number = None" by blast
  have "JSON_parse service_ok (cleaned (units ''Hello!'')) = None" by code_simp
  with offerCopySchema_accepts[of _ _ _ _ service_ok "units ''Hello!''" offer_shoes]
  have d: "decode service_ok offer_shoes (units ''Hello!'')
     = Inl (Error (invalid_json_message offer_shoes (units ''Hello!'')))" by blast
  have "JSON_parse service_ok (cleaned copy_text) = Some copy_doc" by code_simp
  with offerCopySchema_accepts[of copy_doc _ _ _ service_ok copy_text offer_shoes] a
  have e: "decode service_ok offer_shoes copy_text = Inr copy_record" by simp
  have "JSON_parse (service_ok\<lparr>JSON_parse := (\<lambda>t. Some copy_doc_no_cta)\<rparr>) (cleaned copy_text)
      = Some copy_doc_no_cta" by simp
  with offerCopySchema_accepts[of copy_doc_no_cta _ _ _
      "service_ok\<lparr>JSON_parse := (\<lambda>t. Some copy_doc_no_cta)\<rparr>" copy_text offer_shoes] b
  have f: "decode (service_ok\<lparr>JSON_parse := (\<lambda>t. Some copy_doc_no_cta)\<rparr>) offer_shoes copy_text
     = Inl ZodError" by simp
  from a b c d e f show ?thesis by blast
qed

text \<open>
  The claim as it is written has the validation reject an extra field. The sample
  document with a sixth field, \<open>internalNote\<close>, is accepted, and the record is the one
  of the document without it.
\<close>

theorem offerCopySchema_extra_field_counterexample:
  "offerCopySchema
     (JObject
        [(units ''headline'', JString (units ''Save 20%'')),
         (units ''subheadline'', JNull),
         (units ''body'', JString (units ''...'')),
         (units ''callToAction'', JString (units ''Shop Now'')),
         (units ''legalDisclaimer'', JNull),
         (units ''internalNote'', JString (units ''draft''))])
   = Some copy_record"
  by code_simp

text \<open>
  Claim C9, as the code has it. The output schema asks only that \<open>headline\<close> and
  \<open>callToAction\<close> be text: a document with any headline and any call to action, of
  whatever length, is accepted, and the record carries them unchanged. The limits of
  100 and 40 characters are words of the system prompt, not checks of the decoder.
\<close>

theorem offerCopySchema_no_length_bound:
  "offerCopySchema
     (JObject
        [(units ''headline'', JString h), (units ''subheadline'', JNull),
         (units ''body'', JString b), (units ''callToAction'', JString c),
         (units ''legalDisclaimer'', JNull)])
   = Some \<lparr>headline = h, subheadline = None, body = b, callToAction = c, legalDisclaimer = None\<rparr>"
  by (simp add: offerCopySchema_def z_string_def z_nullable_def units_def)

text \<open>
  A headline of 101 code units and a call to action of 41, one more than the prompt
  allows, pass the validation.
\<close>

theorem offerCopySchema_long_headline_counterexample:
  "offerCopySchema
     (JObject
        [(units ''headline'', JString (replicate 101 0x41)), (units ''subheadline'', JNull),
         (units ''body'', JString (units ''...'')),
         (units ''callToAction'', JString (replicate 41 0x41)),
         (units ''legalDisclaimer'', JNull)])
   = Some \<lparr>headline = replicate 101 0x41, subheadline = None, body = units ''...'',
            callToAction = replicate 41 0x41, legalDisclaimer = None\<rparr> \<and>
   length (replicate 101 (0x41 :: 16 word)) = 101 \<and>
   length (replicate 41 (0x41 :: 16 word)) = 41"
  by (simp add: offerCopySchema_def z_string_def z_nullable_def units_def)

text \<open>
  Claim C6, as the code has it. The mode of a result is decided by the truthiness of
  \<open>existingCopy\<close>: \<open>modified\<close> when it is present and not empty, \<open>generated\<close> when it is
  absent or the empty string.
\<close>

theorem mode_by_truthiness:
  "processOffer sv offer = Inr r \<Longrightarrow>
   res_mode r = (case existingCopy offer of None \<Rightarrow> Generated
                 | Some c \<Rightarrow> if c = [] then Generated else Modified)"
  unfolding processOffer_def truthy_def
  by (auto split: sum.splits option.splits)

theorem mode_by_truthiness_witness:
  "processOffer service_ok offer_revise = Inr (result_shoes\<lparr>res_mode := Modified\<rparr>) \<and>
   res_mode (result_shoes\<lparr>res_mode := Modified\<rparr>) = Modified \<and>
   processOffer service_ok offer_shoes = Inr result_shoes \<and>
   res_mode result_shoes = Generated"
proof -
  have a: "processOffer service_ok offer_revise = Inr (result_shoes\<lparr>res_mode := Modified\<rparr>)"
    by code_simp
  have b: "processOffer service_ok offer_shoes = Inr result_shoes"
    by code_simp
  have "existingCopy offer_revise = Some (units ''Get a discount on shoes!'')"
    "existingCopy offer_shoes = None"
    by (simp_all add: offer_revise_def offer_shoes_def)
  with mode_by_truthiness[OF a] mode_by_truthiness[OF b] a b
  show ?thesis by (simp add: units_def)
qed

text \<open>
  The claim as it is written gives \<open>modified\<close> whenever \<open>existingCopy\<close> is present. An
  item whose \<open>existingCopy\<close> is the empty string passes the request schema, and its
  result is tagged \<open>generated\<close>.
\<close>

theorem mode_empty_existingCopy_counterexample:
  "offerInputSchema item_blank = Some offer_blank \<and>
   existingCopy offer_blank = Some [] \<and>
   processOffer service_ok offer_blank = Inr result_shoes \<and>
   res_mode result_shoes = Generated"
  by code_simp

text \<open>
  Claim C7. A text \<open>t\<close> without fences (it does not begin with three backticks and
  does not end with them, trailing white space apart) goes through the two
  replacements unchanged: what \<open>JSON.parse\<close> receives is \<open>t\<close> trimmed, and the decoder
  returns the record that this parses and validates to. A text \<open>t\<close> wrapped in a fenced
  block loses the block: the opening fence, bare or tagged \<open>json\<close> in any case, the
  white space around the text (none at all included) and the closing fence with what
  white space follows it; what \<open>JSON.parse\<close> receives is again \<open>t\<close> trimmed, also when
  only the opening or only the closing fence is there. So the decoder returns a record
  for the wrapped text exactly when it returns that record for \<open>t\<close>, and fails for the
  one exactly when it fails for the other. The one text set apart begins with \<open>json\<close>
  and is glued to a bare opening fence: there the four letters are the tag.
\<close>

theorem fence_stripping:
  "(\<not> fenced_open t \<and> \<not> fenced_close t \<longrightarrow>
      replace_open t = t \<and> replace_close t = t \<and> cleaned t = trim t \<and>
      (decode sv offer t = Inr r \<longleftrightarrow>
         (\<exists>parsed. JSON_parse sv (trim t) = Some parsed \<and> offerCopySchema parsed = Some r))) \<and>
   (is_json_tag tag \<and> list_all is_space a \<and> list_all is_space b \<and> list_all is_space c \<and>
    (tag = [] \<and> a = [] \<longrightarrow> \<not> begins_json t) \<longrightarrow>
      cleaned (wrap tag a t b c) = trim t \<and>
      (decode sv offer (wrap tag a t b c) = Inr r \<longleftrightarrow>
         (\<exists>parsed. JSON_parse sv (trim t) = Some parsed \<and> offerCopySchema parsed = Some r)) \<and>
      (\<not> fenced_close (fence @ tag @ a @ t) \<longrightarrow> cleaned (fence @ tag @ a @ t) = trim t) \<and>
      (\<not> fenced_open (t @ b @ fence @ c) \<longrightarrow> cleaned (t @ b @ fence @ c) = trim t) \<and>
      (\<not> fenced_open t \<and> \<not> fenced_close t \<longrightarrow>
         cleaned (wrap tag a t b c) = cleaned t \<and>
         (decode sv offer (wrap tag a t b c) = Inr r \<longleftrightarrow> decode sv offer t = Inr r) \<and>
         (isl (decode sv offer (wrap tag a t b c)) \<longleftrightarrow> isl (decode sv offer t))))"
proof (intro conjI impI; (elim conjE)?)
  assume u: "\<not> fenced_open t" "\<not> fenced_close t"
  show "replace_open t = t" by (rule replace_open_unfenced[OF u(1)])
  show "replace_close t = t" by (rule replace_close_unfenced[OF u(2)])
  show "cleaned t = trim t" by (rule cleaned_unfenced[OF u])
  show "decode sv offer t = Inr r \<longleftrightarrow>
         (\<exists>parsed. JSON_parse sv (trim t) = Some parsed \<and> offerCopySchema parsed = Some r)"
    unfolding decode_by_cleaned cleaned_unfenced[OF u] ..
next
  assume w: "is_json_tag tag" "list_all is_space a" "list_all is_space b" "list_all is_space c"
    "tag = [] \<and> a = [] \<longrightarrow> \<not> begins_json t"
  have cw: "cleaned (wrap tag a t b c) = trim t"
    by (rule cleaned_wrap_glued[OF w(1) w(2) w(3) w(4) w(5)])
  show "cleaned (wrap tag a t b c) = trim t" by (rule cw)
  show "decode sv offer (wrap tag a t b c) = Inr r \<longleftrightarrow>
         (\<exists>parsed. JSON_parse sv (trim t) = Some parsed \<and> offerCopySchema parsed = Some r)"
    unfolding decode_by_cleaned cw ..
  show "cleaned (fence @ tag @ a @ t) = trim t" if "\<not> fenced_close (fence @ tag @ a @ t)"
    by (rule cleaned_open_only[OF w(1) w(2) w(5) that])
  show "cleaned (t @ b @ fence @ c) = trim t" if "\<not> fenced_open (t @ b @ fence @ c)"
    by (rule cleaned_close_only[OF w(3) w(4) that])
  assume u: "\<not> fenced_open t" "\<not> fenced_close t"
  from cw cleaned_unfenced[OF u]
  show e: "cleaned (wrap tag a t b c) = cleaned t" by simp
  from decode_depends_on_cleaned[OF e]
  show "decode sv offer (wrap tag a t b c) = Inr r \<longleftrightarrow> decode sv offer t = Inr r"
    "isl (decode sv offer (wrap tag a t b c)) \<longleftrightarrow> isl (decode sv offer t)"
    by blast+
qed

theorem fence_stripping_witness:
  "cleaned copy_text = copy_text \<and>
   decode service_ok offer_shoes copy_text = Inr copy_record \<and>
   decode service_ok offer_shoes (wrap (units ''json'') [0x0A] copy_text [0x0A] []) = Inr copy_record \<and>
   decode service_ok offer_shoes (wrap (units ''JSON'') [] copy_text [] [0x20]) = Inr copy_record \<and>
   decode service_ok offer_shoes (wrap [] [0x0D, 0x0A] copy_text [0x20] [0x0A]) = Inr copy_record \<and>
   decode service_ok offer_shoes (wrap [] [] copy_text [] []) = Inr copy_record \<and>
   cleaned (fence @ units ''json'' @ [0x0A] @ copy_text) = copy_text \<and>
   cleaned (copy_text @ [0x0A] @ fence @ []) = copy_text"
proof -
  have u: "\<not> fenced_open copy_text" "\<not> fenced_close copy_text" by code_simp+
  have nj: "\<not> begins_json copy_text" by code_simp
  have tr: "trim copy_text = copy_text" by code_simp
  have sp: "list_all is_space [0x0A]" "list_all is_space []" "list_all is_space [0x0D, 0x0A]"
    "list_all is_space [0x20]"
    by (simp_all add: is_space_def)
  have tg: "is_json_tag (units ''json'')" "is_json_tag []" "is_json_tag (units ''JSON'')"
    by (simp_all add: is_json_tag_def units_def canonicalize_def)
  have oc: "\<not> fenced_close (fence @ units ''json'' @ [0x0A] @ copy_text)"
    "\<not> fenced_open (copy_text @ [0x0A] @ fence @ [])" by code_simp+
  have d: "decode service_ok offer_shoes copy_text = Inr copy_record" by code_simp
  from fence_stripping[where t = copy_text and sv = service_ok and offer = offer_shoes
      and r = copy_record and tag = "units ''json''" and a = "[0x0A]" and b = "[0x0A]" and c = "[]"]
    u nj tr sp tg oc d
  have a: "cleaned copy_text = copy_text"
    "decode service_ok offer_shoes (wrap (units ''json'') [0x0A] copy_text [0x0A] []) = Inr copy_record"
    "cleaned (fence @ units ''json'' @ [0x0A] @ copy_text) = copy_text"
    "cleaned (copy_text @ [0x0A] @ fence @ []) = copy_text"
    by simp_all
  from fence_stripping[where t = copy_text and sv = service_ok and offer = offer_shoes
      and r = copy_record and tag = "units ''JSON''" and a = "[]" and b = "[]" and c = "[0x20]"]
    u nj sp tg d
  have b: "decode service_ok offer_shoes (wrap (units ''JSON'') [] copy_text [] [0x20]) = Inr copy_record"
    by simp
  from fence_stripping[where t = copy_text and sv = service_ok and offer = offer_shoes
      and r = copy_record and tag = "[]" and a = "[0x0D, 0x0A]" and b = "[0x20]" and c = "[0x0A]"]
    u nj sp tg d
  have c: "decode service_ok offer_shoes (wrap [] [0x0D, 0x0A] copy_text [0x20] [0x0A]) = Inr copy_record"
    by simp
  from fence_stripping[where t = copy_text and sv = service_ok and offer = offer_shoes
      and r = copy_record and tag = "[]" and a = "[]" and b = "[]" and c = "[]"]
    u nj sp tg d
  have e: "decode service_ok offer_shoes (wrap [] [] copy_text [] []) = Inr copy_record"
    by simp
  from a b c d e show ?thesis by blast
qed

section \<open>The deadline and the single attempt\<close>










end
